theory Spec2Isabelle
  imports Complex_Main
begin

section \<open>The battle simulation engine (src/example/BattleLogic.ts)\<close>

text \<open>
  A shallow embedding of the class \<^verbatim>\<open>BattleLogic\<close>. The TypeScript type \<^verbatim>\<open>number\<close> is
  modelled by exact rationals for every quantity (cost, health, damage, distance, the
  knock back counter and the threshold fractions) and by naturals for identifiers and
  the frame counter; rounding, \<^verbatim>\<open>NaN\<close> and infinities of IEEE doubles are outside the
  model.

  Unit entities are objects that are shared between the array \<^verbatim>\<open>unitEntities\<close> and the
  \<^verbatim>\<open>engagedEntity\<close> fields of other entities, and they are mutated in place. The model
  therefore keeps an explicit store \<open>heap\<close> from references to entity records. The one
  allocation site (\<^verbatim>\<open>updateSpawnRequest\<close>) gives every new object the identifier
  \<^verbatim>\<open>nextEntityId++\<close>, and the model uses that identifier as the object's reference.
\<close>

subsection \<open>Data\<close>

datatype AttackableState = IDLE | ENGAGED | KNOCK_BACK | DEAD

text \<open>
  The fields of a unit master that \<^verbatim>\<open>BattleLogic\<close> reads. (The suffix \<open>_m\<close> keeps the
  names apart from the fields of an entity and from the constant \<open>power\<close>.)
\<close>

record UnitMaster =
  unitId_m :: nat
  cost :: rat
  maxHealth_m :: rat
  power_m :: rat
  speed :: rat
  knockBackSpeed :: rat
  knockBackFrames :: rat

record BattleLogicConfig =
  costRecoveryPerFrame :: rat
  maxAvailableCost :: rat
  knockBackHealthThreasholds :: "rat list"

type_synonym ref = nat

record UnitEntity =
  id_e :: nat
  unitId :: nat
  isPlayer :: bool
  state :: AttackableState
  currentHealth :: rat
  maxHealth :: rat
  distance :: rat
  engagedEntity :: "ref option"
  currentFrameDamage :: rat
  currentKnockBackFrameCount :: rat

text \<open>
  Modelled from the spec: the class \<^verbatim>\<open>UnitEntity\<close> (\<^verbatim>\<open>example/UnitEntity\<close>) is not among
  the sources. Its constructor takes the unit type and the side; the fields that
  \<^verbatim>\<open>updateSpawnRequest\<close> does not assign start at zero, with no engaged entity
  (``at most one opposing entity currently being fought'', ``damage accumulated this
  frame only'', ``frames elapsed since knockback began'').
\<close>

definition new_UnitEntity :: "nat \<Rightarrow> bool \<Rightarrow> UnitEntity" where
  "new_UnitEntity uid isP =
     \<lparr> id_e = 0, unitId = uid, isPlayer = isP, state = IDLE, currentHealth = 0,
       maxHealth = 0, distance = 0, engagedEntity = None, currentFrameDamage = 0,
       currentKnockBackFrameCount = 0 \<rparr>"

text \<open>
  The three queries of \<^verbatim>\<open>BattleLogicDelegate\<close>, as pure functions of the entities they
  are handed. The six notification methods return nothing; their calls are recorded,
  in order, in the field \<open>notifications\<close> of the engine.
\<close>

record BattleLogicDelegate =
  shouldDamage :: "UnitEntity \<Rightarrow> UnitEntity \<Rightarrow> bool"
  shouldEngageAttackableEntity :: "UnitEntity \<Rightarrow> UnitEntity \<Rightarrow> bool"
  shouldUnitWalk :: "UnitEntity \<Rightarrow> bool"

datatype notification =
    OnAvailableCostUpdated rat rat "nat list"
  | OnUnitEntitySpawned ref rat
  | OnAttackableEntityHealthUpdated ref ref rat rat rat
  | OnUnitEntityKnockingBack ref "rat option"
  | OnUnitEntityWalked ref
  | OnAttackableEntityStateChanged ref AttackableState

record BattleLogic =
  config :: BattleLogicConfig
  delegator :: "BattleLogicDelegate option"
  availableCost :: rat
  nextEntityId :: nat
  unitEntities :: "ref list"
  heap :: "ref \<Rightarrow> UnitEntity"
  unitMasterCache :: "nat \<Rightarrow> UnitMaster option"
  aiWaveCache :: "nat \<Rightarrow> nat list option"
  passedFrameCount :: nat
  spawnRequestedUnitUnitIds :: "(nat \<times> bool) list"
  player_unitIds :: "nat list"
  notifications :: "notification list"

text \<open>
  The engine as its field initialisers leave it. The default configuration is
  \<^verbatim>\<open>new BattleLogicConfig()\<close>, a class that is not among the sources: it is a parameter.
\<close>

definition new_BattleLogic :: "BattleLogicConfig \<Rightarrow> BattleLogic" where
  "new_BattleLogic defaultConfig =
     \<lparr> config = defaultConfig, delegator = None, availableCost = 0, nextEntityId = 0,
       unitEntities = [], heap = (\<lambda>_. new_UnitEntity 0 False),
       unitMasterCache = Map.empty, aiWaveCache = Map.empty, passedFrameCount = 0,
       spawnRequestedUnitUnitIds = [], player_unitIds = [], notifications = [] \<rparr>"

subsection \<open>Store and notification primitives\<close>

text \<open>An assignment to fields of the object \<open>u\<close>.\<close>

definition modify :: "BattleLogic \<Rightarrow> ref \<Rightarrow> (UnitEntity \<Rightarrow> UnitEntity) \<Rightarrow> BattleLogic" where
  "modify s u f = s\<lparr> heap := (heap s)(u := f (heap s u)) \<rparr>"

text \<open>A notification call guarded by \<^verbatim>\<open>if (this.delegator)\<close>.\<close>

definition notify :: "BattleLogic \<Rightarrow> notification \<Rightarrow> BattleLogic" where
  "notify s ev =
     (case delegator s of
        None \<Rightarrow> s
      | Some d \<Rightarrow> s\<lparr> notifications := notifications s @ [ev] \<rparr>)"

subsection \<open>Initialisation and spawn requests\<close>

text \<open>
  The parameter object of \<^verbatim>\<open>init\<close>. The waves of the stage master are an object whose
  keys are parsed with \<^verbatim>\<open>Number.parseInt\<close>; \<open>waves\<close> lists the parsed keys with their
  unit ids in the order of \<^verbatim>\<open>Object.keys\<close>. (A key that parses to a negative number or
  to \<^verbatim>\<open>NaN\<close> never equals the frame counter and is left out.)
\<close>

record InitParams =
  delegator_p :: BattleLogicDelegate
  waves :: "(nat \<times> nat list) list"
  player_p :: "nat list"
  unitMasters :: "UnitMaster list"
  config_p :: "BattleLogicConfig option"

definition init :: "BattleLogic \<Rightarrow> InitParams \<Rightarrow> BattleLogic" where
  "init s params =
     s\<lparr> config := (case config_p params of Some c \<Rightarrow> c | None \<Rightarrow> config s),
        delegator := Some (delegator_p params),
        player_unitIds := player_p params,
        unitMasterCache :=
          foldl (\<lambda>m unit. m(unitId_m unit \<mapsto> unit)) Map.empty (unitMasters params),
        aiWaveCache :=
          foldl (\<lambda>m (key, w). m(key \<mapsto> w)) (aiWaveCache s) (waves params) \<rparr>"

definition requestSpawn :: "BattleLogic \<Rightarrow> nat \<Rightarrow> bool \<Rightarrow> BattleLogic" where
  "requestSpawn s uid isP =
     s\<lparr> spawnRequestedUnitUnitIds := spawnRequestedUnitUnitIds s @ [(uid, isP)] \<rparr>"

definition requestSpawnPlayer :: "BattleLogic \<Rightarrow> nat \<Rightarrow> BattleLogic" where
  "requestSpawnPlayer s uid = requestSpawn s uid True"

definition requestSpawnAI :: "BattleLogic \<Rightarrow> nat \<Rightarrow> BattleLogic" where
  "requestSpawnAI s uid = requestSpawn s uid False"

subsection \<open>Cost recovery and spawning\<close>

definition availablePlayerUnitIds :: "BattleLogic \<Rightarrow> nat list" where
  "availablePlayerUnitIds s =
     filter (\<lambda>uid. case unitMasterCache s uid of
                      None \<Rightarrow> False
                    | Some master \<Rightarrow> availableCost s \<ge> cost master)
            (player_unitIds s)"

definition updateAvailableCost :: "BattleLogic \<Rightarrow> rat \<Rightarrow> BattleLogic" where
  "updateAvailableCost s newCost =
     (let cost' = (if newCost > maxAvailableCost (config s)
                   then maxAvailableCost (config s) else newCost);
          s1 = s\<lparr> availableCost := cost' \<rparr>
      in notify s1 (OnAvailableCostUpdated (availableCost s1)
                      (maxAvailableCost (config s1)) (availablePlayerUnitIds s1)))"

definition updateAISpawn :: "BattleLogic \<Rightarrow> BattleLogic" where
  "updateAISpawn s =
     (case aiWaveCache s (passedFrameCount s) of
        None \<Rightarrow> s
      | Some ws \<Rightarrow> foldl requestSpawnAI s ws)"

text \<open>
  One iteration of the loop of \<^verbatim>\<open>updateSpawnRequest\<close>, on the pair of the local
  \<^verbatim>\<open>tmpCost\<close> and the engine.
\<close>

definition spawnStep :: "rat \<times> BattleLogic \<Rightarrow> nat \<times> bool \<Rightarrow> rat \<times> BattleLogic" where
  "spawnStep ts reservedUnit =
     (let tmpCost = fst ts; s = snd ts;
          uid = fst reservedUnit; isP = snd reservedUnit
      in case unitMasterCache s uid of
           None \<Rightarrow> (tmpCost, s)
         | Some master \<Rightarrow>
             if isP \<and> tmpCost - cost master < 0 then (tmpCost, s)
             else
               let tmpCost' = (if isP then tmpCost - cost master else tmpCost);
                   baseLocation = (if isP then 100 else 1000);
                   r = nextEntityId s;
                   entity = (new_UnitEntity uid isP)
                              \<lparr> id_e := r, maxHealth := maxHealth_m master,
                                currentHealth := maxHealth_m master, state := IDLE \<rparr>;
                   s1 = s\<lparr> nextEntityId := r + 1,
                          heap := (heap s)(r := entity),
                          unitEntities := unitEntities s @ [r] \<rparr>
               in (tmpCost', notify s1 (OnUnitEntitySpawned r baseLocation)))"

definition updateSpawnRequest :: "BattleLogic \<Rightarrow> BattleLogic" where
  "updateSpawnRequest s =
     (if spawnRequestedUnitUnitIds s = [] then s
      else
        let ts = foldl spawnStep (availableCost s, s) (spawnRequestedUnitUnitIds s)
        in (updateAvailableCost (snd ts) (fst ts))\<lparr> spawnRequestedUnitUnitIds := [] \<rparr>)"

subsection \<open>Parameter update\<close>

definition updateDamage :: "BattleLogic \<Rightarrow> ref \<Rightarrow> UnitMaster \<Rightarrow> BattleLogic" where
  "updateDamage s u master =
     (case engagedEntity (heap s u) of
        None \<Rightarrow> s
      | Some t \<Rightarrow>
          if (case delegator s of
                None \<Rightarrow> True
              | Some d \<Rightarrow> shouldDamage d (heap s u) (heap s t))
          then
            let newHealth = currentHealth (heap s t) - power_m master;
                s1 = modify s t (\<lambda>e. e\<lparr> currentFrameDamage := currentFrameDamage e + power_m master,
                                         currentHealth := newHealth \<rparr>)
            in notify s1 (OnAttackableEntityHealthUpdated u t
                            (currentHealth (heap s1 t) + power_m master)
                            (currentHealth (heap s1 t)) (maxHealth (heap s1 t)))
          else s)"

text \<open>
  The rate reported while knocking back is a quotient; the quotient by zero, which is
  an infinity or \<^verbatim>\<open>NaN\<close> in the source, is reported as \<open>None\<close>.
\<close>

definition updateDistance :: "BattleLogic \<Rightarrow> ref \<Rightarrow> UnitMaster \<Rightarrow> BattleLogic" where
  "updateDistance s u master =
     (if state (heap s u) = KNOCK_BACK then
        let s1 = modify s u (\<lambda>e. e\<lparr> distance := distance e - knockBackSpeed master,
                                     currentKnockBackFrameCount := currentKnockBackFrameCount e + 1 \<rparr>);
            rate = (if knockBackFrames master = 0 then None
                    else Some (currentKnockBackFrameCount (heap s1 u) / knockBackFrames master))
        in notify s1 (OnUnitEntityKnockingBack u rate)
      else
        let s1 = modify s u (\<lambda>e. e\<lparr> currentKnockBackFrameCount := 0 \<rparr>)
        in if state (heap s1 u) = IDLE then
             (case delegator s1 of
                Some d \<Rightarrow>
                  if shouldUnitWalk d (heap s1 u)
                  then notify (modify s1 u (\<lambda>e. e\<lparr> distance := distance e + speed master \<rparr>))
                         (OnUnitEntityWalked u)
                  else s1
              | None \<Rightarrow> modify s1 u (\<lambda>e. e\<lparr> distance := distance e + speed master \<rparr>))
           else s1)"

definition parameterStep :: "BattleLogic \<Rightarrow> ref \<Rightarrow> BattleLogic" where
  "parameterStep s u =
     (case unitMasterCache s (unitId (heap s u)) of
        None \<Rightarrow> s
      | Some master \<Rightarrow> updateDistance (updateDamage s u master) u master)"

definition updateEntityParameter :: "BattleLogic \<Rightarrow> BattleLogic" where
  "updateEntityParameter s = foldl parameterStep s (unitEntities s)"

subsection \<open>State transitions\<close>

definition updateUnitKnockBackState :: "BattleLogic \<Rightarrow> ref \<Rightarrow> BattleLogic" where
  "updateUnitKnockBackState s u =
     (let s1 = modify s u (\<lambda>e. e\<lparr> engagedEntity := None \<rparr>)
      in case unitMasterCache s1 (unitId (heap s1 u)) of
           None \<Rightarrow> s1
         | Some master \<Rightarrow>
             if currentKnockBackFrameCount (heap s1 u) < knockBackFrames master then s1
             else modify s1 u (\<lambda>e. e\<lparr> state := (if currentHealth e < 1 then DEAD else IDLE) \<rparr>))"

text \<open>The loop over the knock back thresholds, with its \<^verbatim>\<open>continue\<close> and \<^verbatim>\<open>break\<close>.\<close>

fun knockBackLadder :: "BattleLogic \<Rightarrow> ref \<Rightarrow> rat \<Rightarrow> rat list \<Rightarrow> BattleLogic" where
  "knockBackLadder s u oldHealth [] = s"
| "knockBackLadder s u oldHealth (rate # rates) =
     (let threashold = maxHealth (heap s u) * rate
      in if currentHealth (heap s u) \<ge> threashold then knockBackLadder s u oldHealth rates
         else if oldHealth \<ge> threashold
         then modify s u (\<lambda>e. e\<lparr> engagedEntity := None, state := KNOCK_BACK \<rparr>)
         else knockBackLadder s u oldHealth rates)"

definition updateUnitEngagedState :: "BattleLogic \<Rightarrow> ref \<Rightarrow> BattleLogic" where
  "updateUnitEngagedState s u =
     (let s1 = (case engagedEntity (heap s u) of
                  None \<Rightarrow> s
                | Some t \<Rightarrow>
                    let targetIsDead = currentHealth (heap s t) < 1;
                        targetIsKnockingBack = (state (heap s t) = KNOCK_BACK)
                    in if targetIsDead \<or> targetIsKnockingBack
                       then modify s u (\<lambda>e. e\<lparr> engagedEntity := None, state := IDLE \<rparr>)
                       else s);
          oldHealth = currentHealth (heap s1 u) + currentFrameDamage (heap s1 u)
      in knockBackLadder s1 u oldHealth (knockBackHealthThreasholds (config s1)))"

text \<open>The scan of \<^verbatim>\<open>updateUnitIdleState\<close> over the entities still to be looked at.\<close>

fun idleScan :: "BattleLogic \<Rightarrow> ref \<Rightarrow> ref list \<Rightarrow> BattleLogic" where
  "idleScan s u [] = s"
| "idleScan s u (t # ts) =
     (if (isPlayer (heap s u) \<and> isPlayer (heap s t)) \<or>
         (\<not> isPlayer (heap s u) \<and> \<not> isPlayer (heap s t))
      then idleScan s u ts
      else if state (heap s t) \<noteq> IDLE \<and> state (heap s t) \<noteq> ENGAGED
      then idleScan s u ts
      else if (case delegator s of
                 None \<Rightarrow> False
               | Some d \<Rightarrow> shouldEngageAttackableEntity d (heap s u) (heap s t))
      then modify s u (\<lambda>e. e\<lparr> engagedEntity := Some t, state := ENGAGED \<rparr>)
      else idleScan s u ts)"

definition updateUnitIdleState :: "BattleLogic \<Rightarrow> ref \<Rightarrow> BattleLogic" where
  "updateUnitIdleState s u = idleScan s u (unitEntities s)"

text \<open>The bodies of the three loops of \<^verbatim>\<open>updateEntityState\<close>.\<close>

definition knockBackStep :: "BattleLogic \<Rightarrow> ref \<Rightarrow> BattleLogic" where
  "knockBackStep s u = (if state (heap s u) = KNOCK_BACK then updateUnitKnockBackState s u else s)"

definition engagedStep :: "BattleLogic \<Rightarrow> ref \<Rightarrow> BattleLogic" where
  "engagedStep s u = (if state (heap s u) = ENGAGED then updateUnitEngagedState s u else s)"

definition idleStep :: "BattleLogic \<Rightarrow> ref \<Rightarrow> BattleLogic" where
  "idleStep s u = (if state (heap s u) = IDLE then updateUnitIdleState s u else s)"

definition knockBackPass :: "BattleLogic \<Rightarrow> BattleLogic" where
  "knockBackPass s = foldl knockBackStep s (unitEntities s)"

definition engagedPass :: "BattleLogic \<Rightarrow> BattleLogic" where
  "engagedPass s = foldl engagedStep s (unitEntities s)"

definition idlePass :: "BattleLogic \<Rightarrow> BattleLogic" where
  "idlePass s = foldl idleStep s (unitEntities s)"

definition stateChangedStep :: "BattleLogic \<Rightarrow> ref \<times> AttackableState \<Rightarrow> BattleLogic" where
  "stateChangedStep s uo =
     (if snd uo \<noteq> state (heap s (fst uo))
      then notify s (OnAttackableEntityStateChanged (fst uo) (snd uo)) else s)"

definition updateEntityState :: "BattleLogic \<Rightarrow> BattleLogic" where
  "updateEntityState s =
     (let unitStates = map (\<lambda>u. state (heap s u)) (unitEntities s);
          s3 = idlePass (engagedPass (knockBackPass s))
      in foldl stateChangedStep s3 (zip (unitEntities s3) unitStates))"

subsection \<open>Post processing and the frame\<close>

definition updatePostProcess :: "BattleLogic \<Rightarrow> BattleLogic" where
  "updatePostProcess s =
     (let activeUnitEntities = filter (\<lambda>u. state (heap s u) \<noteq> DEAD) (unitEntities s);
          s1 = s\<lparr> unitEntities := activeUnitEntities \<rparr>
      in foldl (\<lambda>s' u. modify s' u (\<lambda>e. e\<lparr> currentFrameDamage := 0 \<rparr>)) s1 (unitEntities s1))"

text \<open>The engine at the start of the state transitions of a frame.\<close>

definition beforeEntityState :: "BattleLogic \<Rightarrow> BattleLogic" where
  "beforeEntityState s =
     updateEntityParameter (updateSpawnRequest (updateAISpawn
       (updateAvailableCost s (availableCost s + costRecoveryPerFrame (config s)))))"

definition update :: "BattleLogic \<Rightarrow> BattleLogic" where
  "update s =
     (let s6 = updatePostProcess (updateEntityState (beforeEntityState s))
      in s6\<lparr> passedFrameCount := passedFrameCount s6 + 1 \<rparr>)"

text \<open>Sequences of calls of the public methods.\<close>

datatype call = Init InitParams | RequestSpawn nat bool | Update

fun perform :: "BattleLogic \<Rightarrow> call \<Rightarrow> BattleLogic" where
  "perform s (Init params) = init s params"
| "perform s (RequestSpawn uid isP) = requestSpawn s uid isP"
| "perform s Update = update s"

definition run :: "BattleLogic \<Rightarrow> call list \<Rightarrow> BattleLogic" where
  "run s cs = foldl perform s cs"

section \<open>Notions used in the statements\<close>

text \<open>The cost notifications of a notification log: the reported cost and the reported cap.\<close>

fun costLog :: "notification list \<Rightarrow> (rat \<times> rat) list" where
  "costLog [] = []"
| "costLog (OnAvailableCostUpdated c m ids # evs) = (c, m) # costLog evs"
| "costLog (ev # evs) = costLog evs"

text \<open>What the state transitions do not change of an entity: everything but its state and
  its engaged entity. The relation \<open>phase_rel\<close> holds between the engine before and after code
  that changes nothing else (apart from notifications other than cost notifications).\<close>

definition core :: "UnitEntity \<Rightarrow> UnitEntity" where
  "core e = e\<lparr> engagedEntity := None, state := IDLE \<rparr>"

definition phase_rel :: "BattleLogic \<Rightarrow> BattleLogic \<Rightarrow> bool" where
  "phase_rel s s' \<longleftrightarrow>
     config s' = config s \<and> delegator s' = delegator s \<and> availableCost s' = availableCost s \<and>
     nextEntityId s' = nextEntityId s \<and> unitEntities s' = unitEntities s \<and>
     unitMasterCache s' = unitMasterCache s \<and> aiWaveCache s' = aiWaveCache s \<and>
     passedFrameCount s' = passedFrameCount s \<and>
     spawnRequestedUnitUnitIds s' = spawnRequestedUnitUnitIds s \<and>
     player_unitIds s' = player_unitIds s \<and>
     costLog (notifications s') = costLog (notifications s) \<and>
     (\<forall>r. core (heap s' r) = core (heap s r))"

text \<open>The knock back condition in the words of the specification: for some configured
  threshold fraction, the health is below the fraction of the maximal health and the
  health before the damage of the frame was at or above it.\<close>

definition healthCrossing :: "BattleLogicConfig \<Rightarrow> UnitEntity \<Rightarrow> bool" where
  "healthCrossing c e \<longleftrightarrow>
     (\<exists>rate \<in> set (knockBackHealthThreasholds c).
        currentHealth e < maxHealth e * rate \<and>
        maxHealth e * rate \<le> currentHealth e + currentFrameDamage e)"

text \<open>The disengage condition of an engaged entity: its target is dead or knocked back.\<close>

definition targetLost :: "BattleLogic \<Rightarrow> ref \<Rightarrow> bool" where
  "targetLost s u =
     (case engagedEntity (heap s u) of
        None \<Rightarrow> False
      | Some t \<Rightarrow> currentHealth (heap s t) < 1 \<or> state (heap s t) = KNOCK_BACK)"

text \<open>An entity after its engaged resolution: knocked back with no engaged entity when the
  threshold was crossed, and IDLE or ENGAGED when it was not.\<close>

definition ladderDone :: "bool \<Rightarrow> UnitEntity \<Rightarrow> bool" where
  "ladderDone c e \<longleftrightarrow>
     (if c then state e = KNOCK_BACK \<and> engagedEntity e = None
      else state e = IDLE \<or> state e = ENGAGED)"

text \<open>The outcome of the knock back resolution of an entity, in the words of the specification.\<close>

definition knockBackOutcome :: "UnitMaster \<Rightarrow> UnitEntity \<Rightarrow> AttackableState" where
  "knockBackOutcome master e =
     (if currentKnockBackFrameCount e < knockBackFrames master then KNOCK_BACK
      else if currentHealth e < 1 then DEAD else IDLE)"

text \<open>An entity after its knock back resolution.\<close>

definition knockBackDone :: "AttackableState \<Rightarrow> UnitEntity \<Rightarrow> bool" where
  "knockBackDone st e \<longleftrightarrow> engagedEntity e = None \<and> state e = st"

text \<open>What the parameter update does not change of an entity: everything but its health, its
  damage of the frame, its distance and its knock back counter; \<open>param_rel\<close> is the
  corresponding relation between engines.\<close>

definition shell :: "UnitEntity \<Rightarrow> UnitEntity" where
  "shell e = e\<lparr> currentHealth := 0, distance := 0, currentFrameDamage := 0,
               currentKnockBackFrameCount := 0 \<rparr>"

definition param_rel :: "BattleLogic \<Rightarrow> BattleLogic \<Rightarrow> bool" where
  "param_rel s s' \<longleftrightarrow>
     config s' = config s \<and> delegator s' = delegator s \<and> availableCost s' = availableCost s \<and>
     nextEntityId s' = nextEntityId s \<and> unitEntities s' = unitEntities s \<and>
     unitMasterCache s' = unitMasterCache s \<and> aiWaveCache s' = aiWaveCache s \<and>
     passedFrameCount s' = passedFrameCount s \<and>
     spawnRequestedUnitUnitIds s' = spawnRequestedUnitUnitIds s \<and>
     player_unitIds s' = player_unitIds s \<and>
     costLog (notifications s') = costLog (notifications s) \<and>
     (\<forall>r. shell (heap s' r) = shell (heap s r))"

text \<open>What the spawn loop may change: it allocates entities and nothing else.\<close>

definition spawn_rel :: "BattleLogic \<Rightarrow> BattleLogic \<Rightarrow> bool" where
  "spawn_rel s s' \<longleftrightarrow>
     config s' = config s \<and> delegator s' = delegator s \<and> availableCost s' = availableCost s \<and>
     unitMasterCache s' = unitMasterCache s \<and> aiWaveCache s' = aiWaveCache s \<and>
     passedFrameCount s' = passedFrameCount s \<and>
     spawnRequestedUnitUnitIds s' = spawnRequestedUnitUnitIds s \<and>
     player_unitIds s' = player_unitIds s \<and>
     costLog (notifications s') = costLog (notifications s) \<and>
     nextEntityId s \<le> nextEntityId s' \<and>
     unitEntities s' = unitEntities s @ [nextEntityId s ..< nextEntityId s'] \<and>
     (\<forall>r. r < nextEntityId s \<longrightarrow> heap s' r = heap s r) \<and>
     (\<forall>r. nextEntityId s \<le> r \<longrightarrow> r < nextEntityId s' \<longrightarrow>
        state (heap s' r) = IDLE \<and> engagedEntity (heap s' r) = None \<and> id_e (heap s' r) = r)"

text \<open>The unit ids that the wave schedule lists under the current frame.\<close>

definition currentWave :: "BattleLogic \<Rightarrow> nat list" where
  "currentWave s = (case aiWaveCache s (passedFrameCount s) of None \<Rightarrow> [] | Some ws \<Rightarrow> ws)"

text \<open>
  The requests that spawn resolution accepts, in the words of the specification: a
  request without unit master is dropped, a player request is accepted when the running
  cost counter covers the cost (which is then deducted), an AI request is accepted
  unconditionally.
\<close>

fun acceptedRequests :: "(nat \<Rightarrow> UnitMaster option) \<Rightarrow> rat \<Rightarrow> (nat \<times> bool) list \<Rightarrow> (nat \<times> bool) list" where
  "acceptedRequests masters tmpCost [] = []"
| "acceptedRequests masters tmpCost ((uid, isP) # reqs) =
     (case masters uid of
        None \<Rightarrow> acceptedRequests masters tmpCost reqs
      | Some master \<Rightarrow>
          if isP then
            (if cost master \<le> tmpCost
             then (uid, isP) # acceptedRequests masters (tmpCost - cost master) reqs
             else acceptedRequests masters tmpCost reqs)
          else (uid, isP) # acceptedRequests masters tmpCost reqs)"

text \<open>The cost of the player requests among a list of accepted requests.\<close>

definition playerCost :: "(nat \<Rightarrow> UnitMaster option) \<Rightarrow> (nat \<times> bool) list \<Rightarrow> rat" where
  "playerCost masters reqs =
     sum_list (map (\<lambda>req. case masters (fst req) of None \<Rightarrow> 0 | Some master \<Rightarrow> cost master)
                 (filter snd reqs))"

text \<open>The unit type and the side of an entity.\<close>

definition kindOf :: "BattleLogic \<Rightarrow> ref \<Rightarrow> nat \<times> bool" where
  "kindOf s r = (unitId (heap s r), isPlayer (heap s r))"

text \<open>An entity as spawn resolution creates it from its unit master.\<close>

definition freshlySpawned :: "BattleLogic \<Rightarrow> ref \<Rightarrow> bool" where
  "freshlySpawned s r \<longleftrightarrow>
     id_e (heap s r) = r \<and> state (heap s r) = IDLE \<and> engagedEntity (heap s r) = None \<and>
     (case unitMasterCache s (unitId (heap s r)) of
        None \<Rightarrow> False
      | Some master \<Rightarrow> currentHealth (heap s r) = maxHealth_m master \<and>
                       maxHealth (heap s r) = maxHealth_m master)"

text \<open>The engine after the first three steps of a frame.\<close>

definition afterSpawn :: "BattleLogic \<Rightarrow> BattleLogic" where
  "afterSpawn s =
     updateSpawnRequest (updateAISpawn
       (updateAvailableCost s (availableCost s + costRecoveryPerFrame (config s))))"

text \<open>The unit types of the AI entities that a frame has created and left in the live collection.\<close>

definition spawnedAI :: "BattleLogic \<Rightarrow> nat list" where
  "spawnedAI s =
     map (\<lambda>r. unitId (heap (update s) r))
       (filter (\<lambda>r. nextEntityId s \<le> r \<and> \<not> isPlayer (heap (update s) r))
          (unitEntities (update s)))"

text \<open>Every reference of the live collection has been allocated.\<close>

definition allocated :: "BattleLogic \<Rightarrow> bool" where
  "allocated s \<longleftrightarrow> list_all (\<lambda>r. r < nextEntityId s) (unitEntities s)"

text \<open>A configuration whose recovery rate and cost cap are not negative.\<close>

definition configOK :: "BattleLogicConfig \<Rightarrow> bool" where
  "configOK c \<longleftrightarrow> 0 \<le> costRecoveryPerFrame c \<and> 0 \<le> maxAvailableCost c"

fun callOK :: "call \<Rightarrow> bool" where
  "callOK (Init params) = (case config_p params of None \<Rightarrow> True | Some c \<Rightarrow> configOK c)"
| "callOK (RequestSpawn uid isP) = True"
| "callOK Update = True"

text \<open>Every cost notification reports a cost between zero and the reported cap.\<close>

definition costsOK :: "notification list \<Rightarrow> bool" where
  "costsOK evs = list_all (\<lambda>cm. 0 \<le> fst cm \<and> fst cm \<le> snd cm) (costLog evs)"

text \<open>The cost invariant of the engine between calls.\<close>

definition costInv :: "BattleLogic \<Rightarrow> bool" where
  "costInv s \<longleftrightarrow> configOK (config s) \<and> 0 \<le> availableCost s \<and> costsOK (notifications s)"

text \<open>
  The engagement invariant in the words of the specification: the engaged entity of a
  live entity, if any, is live and of the opposing side.
\<close>

definition engagementOK :: "BattleLogic \<Rightarrow> bool" where
  "engagementOK s \<longleftrightarrow>
     list_all (\<lambda>r. case engagedEntity (heap s r) of
                      None \<Rightarrow> True
                    | Some t \<Rightarrow> t \<in> set (unitEntities s) \<and>
                               isPlayer (heap s t) \<noteq> isPlayer (heap s r))
       (unitEntities s)"

text \<open>The facts about the entities of a list that the three passes maintain.\<close>

definition engagedWithin :: "ref list \<Rightarrow> (ref \<Rightarrow> UnitEntity) \<Rightarrow> bool" where
  "engagedWithin L h \<longleftrightarrow>
     (\<forall>r \<in> set L. \<forall>t. engagedEntity (h r) = Some t \<longrightarrow>
        t \<in> set L \<and> isPlayer (h t) \<noteq> isPlayer (h r) \<and> state (h r) = ENGAGED)"

definition deadWithoutHealth :: "ref list \<Rightarrow> (ref \<Rightarrow> UnitEntity) \<Rightarrow> bool" where
  "deadWithoutHealth L h \<longleftrightarrow> (\<forall>t \<in> set L. state (h t) = DEAD \<longrightarrow> currentHealth (h t) < 1)"

definition targetsAlive :: "ref list \<Rightarrow> (ref \<Rightarrow> UnitEntity) \<Rightarrow> bool" where
  "targetsAlive L h \<longleftrightarrow>
     (\<forall>r \<in> set L. \<forall>t. engagedEntity (h r) = Some t \<longrightarrow> state (h t) \<noteq> DEAD)"

definition targetHealthy :: "ref \<Rightarrow> (ref \<Rightarrow> UnitEntity) \<Rightarrow> bool" where
  "targetHealthy r h \<longleftrightarrow> (\<forall>t. engagedEntity (h r) = Some t \<longrightarrow> 1 \<le> currentHealth (h t))"

text \<open>The invariant of the engine between calls.\<close>

definition consistent :: "BattleLogic \<Rightarrow> bool" where
  "consistent s \<longleftrightarrow>
     allocated s \<and> engagedWithin (unitEntities s) (heap s) \<and>
     (\<forall>r \<in> set (unitEntities s). state (heap s r) \<noteq> DEAD)"

text \<open>
  The delegate, if there is one, permits every walk, every damage, every engagement. (The
  engine hands the delegate the entities; a delegate may well refuse an entity for its
  health. These are the delegates that do not.)
\<close>

definition walkAllowed :: "BattleLogic \<Rightarrow> bool" where
  "walkAllowed s \<longleftrightarrow> (case delegator s of None \<Rightarrow> True | Some d \<Rightarrow> \<forall>e. shouldUnitWalk d e)"

definition damageAllowed :: "BattleLogic \<Rightarrow> bool" where
  "damageAllowed s \<longleftrightarrow> (case delegator s of None \<Rightarrow> True | Some d \<Rightarrow> \<forall>a b. shouldDamage d a b)"

definition engageAllowed :: "BattleLogic \<Rightarrow> bool" where
  "engageAllowed s \<longleftrightarrow>
     (case delegator s of None \<Rightarrow> False | Some d \<Rightarrow> \<forall>a b. shouldEngageAttackableEntity d a b)"

text \<open>
  The damage that the entity \<open>x\<close> deals to the entity \<open>t\<close> in a parameter update: the power
  of its unit master when \<open>t\<close> is its engaged entity.
\<close>

definition attackOn :: "BattleLogic \<Rightarrow> ref \<Rightarrow> ref \<Rightarrow> rat" where
  "attackOn s t x =
     (case unitMasterCache s (unitId (heap s x)) of
        None \<Rightarrow> 0
      | Some master \<Rightarrow> if engagedEntity (heap s x) = Some t then power_m master else 0)"

text \<open>The distance of an entity after a parameter update that lets it walk.\<close>

definition movedDistance :: "BattleLogic \<Rightarrow> ref \<Rightarrow> rat" where
  "movedDistance s r =
     (case unitMasterCache s (unitId (heap s r)) of
        None \<Rightarrow> distance (heap s r)
      | Some master \<Rightarrow>
          if state (heap s r) = KNOCK_BACK then distance (heap s r) - knockBackSpeed master
          else if state (heap s r) = IDLE then distance (heap s r) + speed master
          else distance (heap s r))"

text \<open>An entity that is engaged with some entity.\<close>

definition engagedNow :: "UnitEntity \<Rightarrow> bool" where
  "engagedNow e \<longleftrightarrow> state e = ENGAGED \<and> engagedEntity e \<noteq> None"

section \<open>Concrete engines\<close>

text \<open>A delegate that permits everything, a unit master, and engines with two opposing
  entities of that master in the live collection.\<close>

definition permissive :: BattleLogicDelegate where
  "permissive = \<lparr> shouldDamage = (\<lambda>_ _. True), shouldEngageAttackableEntity = (\<lambda>_ _. True),
                  shouldUnitWalk = (\<lambda>_. True) \<rparr>"

definition scenarioMaster :: UnitMaster where
  "scenarioMaster = \<lparr> unitId_m = 7, cost = 30, maxHealth_m = 100, power_m = 10, speed = 1,
                      knockBackSpeed = 2, knockBackFrames = 2 \<rparr>"

definition fighter :: "nat \<Rightarrow> bool \<Rightarrow> AttackableState \<Rightarrow> rat \<Rightarrow> ref option \<Rightarrow> UnitEntity" where
  "fighter i p st h en =
     \<lparr> id_e = i, unitId = 7, isPlayer = p, state = st, currentHealth = h, maxHealth = 100,
       distance = 0, engagedEntity = en, currentFrameDamage = 0,
       currentKnockBackFrameCount = 0 \<rparr>"

definition duel :: "BattleLogicDelegate option \<Rightarrow> UnitEntity \<Rightarrow> UnitEntity \<Rightarrow> BattleLogic" where
  "duel d a b =
     \<lparr> config = \<lparr> costRecoveryPerFrame = 10, maxAvailableCost = 100,
                  knockBackHealthThreasholds = [1 / 2] \<rparr>,
       delegator = d, availableCost = 0, nextEntityId = 2,
       unitEntities = [0, 1], heap = (\<lambda>r. if r = 0 then a else b),
       unitMasterCache = [7 \<mapsto> scenarioMaster], aiWaveCache = Map.empty,
       passedFrameCount = 0, spawnRequestedUnitUnitIds = [], player_unitIds = [7],
       notifications = [] \<rparr>"

text \<open>Scenario C: two opposing units engaged with each other, at the given health.\<close>

definition scenarioC :: "rat \<Rightarrow> BattleLogic" where
  "scenarioC h = duel (Some permissive) (fighter 0 True ENGAGED h (Some 1))
                   (fighter 1 False ENGAGED h (Some 0))"

text \<open>A player unit at the end of its knock back, with the given health, facing an idle AI unit.\<close>

definition knockedBack :: "rat \<Rightarrow> BattleLogic" where
  "knockedBack h = duel (Some permissive)
                     ((fighter 0 True KNOCK_BACK h None)\<lparr> currentKnockBackFrameCount := 2 \<rparr>)
                     (fighter 1 False IDLE 100 None)"

text \<open>A configuration, and the initialisation of Scenario D: one AI unit of type 7 at frame 3.\<close>

definition scenarioConfig :: BattleLogicConfig where
  "scenarioConfig = \<lparr> costRecoveryPerFrame = 10, maxAvailableCost = 100,
                      knockBackHealthThreasholds = [1 / 2] \<rparr>"

definition scenarioD :: InitParams where
  "scenarioD = \<lparr> delegator_p = permissive, waves = [(3, [7])], player_p = [7],
                 unitMasters = [scenarioMaster], config_p = None \<rparr>"

definition started :: BattleLogic where
  "started = init (new_BattleLogic scenarioConfig) scenarioD"

text \<open>The engine of Scenario D after two frames (available cost 20), with a player request pending.\<close>

definition pending :: BattleLogic where
  "pending = requestSpawn (update (update started)) 7 True"

text \<open>An engine initialised with a configuration whose cost cap is negative.\<close>

definition negativeCap :: InitParams where
  "negativeCap = \<lparr> delegator_p = permissive, waves = [], player_p = [7],
                   unitMasters = [scenarioMaster],
                   config_p = Some \<lparr> costRecoveryPerFrame = 0, maxAvailableCost = - 1,
                                     knockBackHealthThreasholds = [1 / 2] \<rparr> \<rparr>"

definition capped :: BattleLogic where
  "capped = init (new_BattleLogic scenarioConfig) negativeCap"

text \<open>A player unit at the end of its knock back with health 45, facing an idle AI unit.\<close>

definition recovering :: BattleLogic where
  "recovering = duel (Some permissive)
                  ((fighter 0 True KNOCK_BACK 45 None)\<lparr> currentKnockBackFrameCount := 2 \<rparr>)
                  (fighter 1 False IDLE 100 None)"



text \<open>The engine of Scenario D at frame 3, with a player request pending.\<close>

definition ready :: BattleLogic where
  "ready = requestSpawn (update (update (update started))) 7 True"

text \<open>A player unit with health -5, idle, and an AI unit at the start of a knock back of two
  frames.\<close>

definition wounded :: BattleLogic where
  "wounded = duel (Some permissive) (fighter 0 True IDLE (- 5) None)
               (fighter 1 False KNOCK_BACK 100 None)"

section \<open>Properties of the engine\<close>

lemma heap_modify [simp]: "heap (modify s u f) r = (if r = u then f (heap s u) else heap s r)"
  by (simp add: modify_def)

lemma modify_fields [simp]:
  "config (modify s u f) = config s"
  "delegator (modify s u f) = delegator s"
  "availableCost (modify s u f) = availableCost s"
  "nextEntityId (modify s u f) = nextEntityId s"
  "unitEntities (modify s u f) = unitEntities s"
  "unitMasterCache (modify s u f) = unitMasterCache s"
  "aiWaveCache (modify s u f) = aiWaveCache s"
  "passedFrameCount (modify s u f) = passedFrameCount s"
  "spawnRequestedUnitUnitIds (modify s u f) = spawnRequestedUnitUnitIds s"
  "player_unitIds (modify s u f) = player_unitIds s"
  "notifications (modify s u f) = notifications s"
  by (simp_all add: modify_def)

lemma notify_fields [simp]:
  "config (notify s ev) = config s"
  "delegator (notify s ev) = delegator s"
  "availableCost (notify s ev) = availableCost s"
  "nextEntityId (notify s ev) = nextEntityId s"
  "unitEntities (notify s ev) = unitEntities s"
  "heap (notify s ev) = heap s"
  "unitMasterCache (notify s ev) = unitMasterCache s"
  "aiWaveCache (notify s ev) = aiWaveCache s"
  "passedFrameCount (notify s ev) = passedFrameCount s"
  "spawnRequestedUnitUnitIds (notify s ev) = spawnRequestedUnitUnitIds s"
  "player_unitIds (notify s ev) = player_unitIds s"
  by (simp_all add: notify_def split: option.splits)

lemma costLog_append [simp]: "costLog (xs @ ys) = costLog xs @ costLog ys"
  by (induction xs rule: costLog.induct) simp_all

lemma core_eqD:
  assumes "core a = core b"
  shows "id_e a = id_e b" "unitId a = unitId b" "isPlayer a = isPlayer b"
    "currentHealth a = currentHealth b" "maxHealth a = maxHealth b" "distance a = distance b"
    "currentFrameDamage a = currentFrameDamage b"
    "currentKnockBackFrameCount a = currentKnockBackFrameCount b"
proof -
  have "id_e (core a) = id_e (core b)" "unitId (core a) = unitId (core b)"
    "isPlayer (core a) = isPlayer (core b)" "currentHealth (core a) = currentHealth (core b)"
    "maxHealth (core a) = maxHealth (core b)" "distance (core a) = distance (core b)"
    "currentFrameDamage (core a) = currentFrameDamage (core b)"
    "currentKnockBackFrameCount (core a) = currentKnockBackFrameCount (core b)"
    using assms by simp_all
  then show "id_e a = id_e b" "unitId a = unitId b" "isPlayer a = isPlayer b"
    "currentHealth a = currentHealth b" "maxHealth a = maxHealth b" "distance a = distance b"
    "currentFrameDamage a = currentFrameDamage b"
    "currentKnockBackFrameCount a = currentKnockBackFrameCount b"
    by (simp_all add: core_def)
qed

lemma phase_relD:
  assumes "phase_rel s s'"
  shows "config s' = config s" "delegator s' = delegator s" "availableCost s' = availableCost s"
    "nextEntityId s' = nextEntityId s" "unitEntities s' = unitEntities s"
    "unitMasterCache s' = unitMasterCache s" "aiWaveCache s' = aiWaveCache s"
    "passedFrameCount s' = passedFrameCount s"
    "spawnRequestedUnitUnitIds s' = spawnRequestedUnitUnitIds s"
    "player_unitIds s' = player_unitIds s"
    "costLog (notifications s') = costLog (notifications s)"
    "id_e (heap s' r) = id_e (heap s r)" "unitId (heap s' r) = unitId (heap s r)"
    "isPlayer (heap s' r) = isPlayer (heap s r)"
    "currentHealth (heap s' r) = currentHealth (heap s r)"
    "maxHealth (heap s' r) = maxHealth (heap s r)" "distance (heap s' r) = distance (heap s r)"
    "currentFrameDamage (heap s' r) = currentFrameDamage (heap s r)"
    "currentKnockBackFrameCount (heap s' r) = currentKnockBackFrameCount (heap s r)"
  using assms core_eqD [of "heap s' r" "heap s r"] by (simp_all add: phase_rel_def)

lemma phase_rel_refl [simp]: "phase_rel s s"
  by (simp add: phase_rel_def)

lemma phase_rel_trans: "phase_rel s s' \<Longrightarrow> phase_rel s' s'' \<Longrightarrow> phase_rel s s''"
  by (simp add: phase_rel_def)

lemma phase_rel_modify:
  "core (f (heap s u)) = core (heap s u) \<Longrightarrow> phase_rel s (modify s u f)"
  by (simp add: phase_rel_def)

lemma phase_rel_foldl:
  "(\<And>s x. phase_rel s (f s x)) \<Longrightarrow> phase_rel s (foldl f s xs)"
proof (induction xs arbitrary: s)
  case Nil
  show ?case by simp
next
  case (Cons x xs)
  have "phase_rel s (f s x)" by (rule Cons.prems)
  moreover have "phase_rel (f s x) (foldl f (f s x) xs)" by (rule Cons.IH) (rule Cons.prems)
  ultimately show ?case by (simp add: phase_rel_trans)
qed

lemma updateUnitKnockBackState_rel: "phase_rel s (updateUnitKnockBackState s u)"
  by (auto simp: updateUnitKnockBackState_def Let_def core_def
      intro!: phase_rel_modify phase_rel_trans [OF phase_rel_modify phase_rel_modify]
      split: option.splits)

lemma knockBackLadder_rel: "phase_rel s (knockBackLadder s u oh rs)"
  by (induction rs) (auto simp: Let_def core_def intro!: phase_rel_modify)

lemma updateUnitEngagedState_rel: "phase_rel s (updateUnitEngagedState s u)"
  by (auto simp: updateUnitEngagedState_def Let_def core_def
      intro!: phase_rel_modify knockBackLadder_rel phase_rel_trans [OF phase_rel_modify knockBackLadder_rel]
      split: option.splits)

lemma idleScan_rel: "phase_rel s (idleScan s u ts)"
  by (induction ts) (auto simp: Let_def core_def intro!: phase_rel_modify)

lemma updateUnitKnockBackState_other:
  "r \<noteq> u \<Longrightarrow> heap (updateUnitKnockBackState s u) r = heap s r"
  by (simp add: updateUnitKnockBackState_def Let_def split: option.splits)

lemma knockBackLadder_other: "r \<noteq> u \<Longrightarrow> heap (knockBackLadder s u oh rs) r = heap s r"
  by (induction rs) (simp_all add: Let_def)

lemma updateUnitEngagedState_other:
  "r \<noteq> u \<Longrightarrow> heap (updateUnitEngagedState s u) r = heap s r"
  by (simp add: updateUnitEngagedState_def Let_def knockBackLadder_other split: option.splits)

lemma idleScan_other: "r \<noteq> u \<Longrightarrow> heap (idleScan s u ts) r = heap s r"
  by (induction ts) (simp_all add: Let_def)

lemma knockBackStep_rel: "phase_rel s (knockBackStep s u)"
  by (simp add: knockBackStep_def updateUnitKnockBackState_rel)

lemma engagedStep_rel: "phase_rel s (engagedStep s u)"
  by (simp add: engagedStep_def updateUnitEngagedState_rel)

lemma idleStep_rel: "phase_rel s (idleStep s u)"
  by (simp add: idleStep_def updateUnitIdleState_def idleScan_rel)

lemma knockBackStep_other: "r \<noteq> u \<Longrightarrow> heap (knockBackStep s u) r = heap s r"
  by (simp add: knockBackStep_def updateUnitKnockBackState_other)

lemma engagedStep_other: "r \<noteq> u \<Longrightarrow> heap (engagedStep s u) r = heap s r"
  by (simp add: engagedStep_def updateUnitEngagedState_other)

lemma idleStep_other: "r \<noteq> u \<Longrightarrow> heap (idleStep s u) r = heap s r"
  by (simp add: idleStep_def updateUnitIdleState_def idleScan_other)

lemmas knockBackStep_keeps [simp] = phase_relD [OF knockBackStep_rel]

lemmas engagedStep_keeps [simp] = phase_relD [OF engagedStep_rel]

lemmas idleStep_keeps [simp] = phase_relD [OF idleStep_rel]

lemma knockBackPass_rel: "phase_rel s (knockBackPass s)"
  by (simp add: knockBackPass_def phase_rel_foldl knockBackStep_rel)

lemma engagedPass_rel: "phase_rel s (engagedPass s)"
  by (simp add: engagedPass_def phase_rel_foldl engagedStep_rel)

lemma idlePass_rel: "phase_rel s (idlePass s)"
  by (simp add: idlePass_def phase_rel_foldl idleStep_rel)

lemmas knockBackPass_keeps [simp] = phase_relD [OF knockBackPass_rel]

lemmas engagedPass_keeps [simp] = phase_relD [OF engagedPass_rel]

lemmas idlePass_keeps [simp] = phase_relD [OF idlePass_rel]

lemma costLog_notify:
  "costLog (notifications (notify s ev)) =
     costLog (notifications s) @ (case delegator s of None \<Rightarrow> [] | Some d \<Rightarrow> costLog [ev])"
  by (simp add: notify_def split: option.splits)

lemma stateChangedStep_heap [simp]: "heap (stateChangedStep s uo) = heap s"
  by (simp add: stateChangedStep_def)

lemma stateChangedStep_rel: "phase_rel s (stateChangedStep s uo)"
  by (simp add: stateChangedStep_def phase_rel_def costLog_notify split: option.splits)

lemma foldl_keeps: "(\<And>s x. g (f s x) = g s) \<Longrightarrow> g (foldl f s xs) = g s"
  by (induction xs arbitrary: s) simp_all

lemma foldl_stateChangedStep_heap [simp]: "heap (foldl stateChangedStep s xs) = heap s"
  by (rule foldl_keeps) simp

lemma updateEntityState_heap:
  "heap (updateEntityState s) = heap (idlePass (engagedPass (knockBackPass s)))"
  by (simp add: updateEntityState_def Let_def)

lemma updateEntityState_rel: "phase_rel s (updateEntityState s)"
proof -
  have "phase_rel s (idlePass (engagedPass (knockBackPass s)))"
    by (blast intro: phase_rel_trans knockBackPass_rel engagedPass_rel idlePass_rel)
  moreover have "phase_rel (idlePass (engagedPass (knockBackPass s))) (updateEntityState s)"
    by (simp add: updateEntityState_def Let_def phase_rel_foldl stateChangedStep_rel)
  ultimately show ?thesis by (rule phase_rel_trans)
qed

lemmas updateEntityState_keeps [simp] = phase_relD [OF updateEntityState_rel]

text \<open>Generic facts about a loop over the entities.\<close>

lemma foldl_invariant:
  "I s \<Longrightarrow> (\<And>s x. I s \<Longrightarrow> I (f s x)) \<Longrightarrow> I (foldl f s xs)"
  by (induction xs arbitrary: s) simp_all

lemma foldl_visit:
  assumes "r \<in> set xs" and "I s"
    and step: "\<And>s x. I s \<Longrightarrow> I (f s x)"
    and visit: "\<And>s. I s \<Longrightarrow> Q (f s r)"
    and keep: "\<And>s x. I s \<Longrightarrow> Q s \<Longrightarrow> Q (f s x)"
  shows "Q (foldl f s xs)"
  using assms(1,2)
proof (induction xs arbitrary: s)
  case Nil
  then show ?case by simp
next
  case (Cons x xs)
  show ?case
  proof (cases "x = r")
    case True
    have "I (f s r) \<and> Q (f s r)" using Cons.prems step visit by simp
    then have "I (foldl f (f s r) xs) \<and> Q (foldl f (f s r) xs)"
      by (rule foldl_invariant) (simp add: step keep)
    then show ?thesis using True by simp
  next
    case False
    then have "r \<in> set xs" using Cons.prems by simp
    moreover have "I (f s x)" using Cons.prems step by simp
    ultimately have "Q (foldl f (f s x) xs)" by (rule Cons.IH)
    then show ?thesis by simp
  qed
qed

lemma updateUnitKnockBackState_self:
  "heap (updateUnitKnockBackState s u) u =
     (heap s u)\<lparr> engagedEntity := None,
                 state := (case unitMasterCache s (unitId (heap s u)) of
                             None \<Rightarrow> state (heap s u)
                           | Some master \<Rightarrow>
                               if currentKnockBackFrameCount (heap s u) < knockBackFrames master
                               then state (heap s u)
                               else if currentHealth (heap s u) < 1 then DEAD else IDLE) \<rparr>"
  by (simp add: updateUnitKnockBackState_def Let_def split: option.splits)

lemma knockBackLadder_self:
  "heap (knockBackLadder s u oh rs) u =
     (if \<exists>rate \<in> set rs. currentHealth (heap s u) < maxHealth (heap s u) * rate \<and>
                          maxHealth (heap s u) * rate \<le> oh
      then (heap s u)\<lparr> engagedEntity := None, state := KNOCK_BACK \<rparr>
      else heap s u)"
  by (induction rs) (auto simp: Let_def)

lemma updateUnitEngagedState_self:
  "heap (updateUnitEngagedState s u) u =
     (if healthCrossing (config s) (heap s u)
      then (heap s u)\<lparr> engagedEntity := None, state := KNOCK_BACK \<rparr>
      else if targetLost s u then (heap s u)\<lparr> engagedEntity := None, state := IDLE \<rparr>
      else heap s u)"
  by (auto simp: updateUnitEngagedState_def Let_def knockBackLadder_self healthCrossing_def
      targetLost_def split: option.splits)

lemma idleScan_self:
  "heap (idleScan s u ts) u = heap s u \<or>
   (\<exists>t \<in> set ts. heap (idleScan s u ts) u = (heap s u)\<lparr> engagedEntity := Some t, state := ENGAGED \<rparr> \<and>
      isPlayer (heap s t) \<noteq> isPlayer (heap s u) \<and>
      (state (heap s t) = IDLE \<or> state (heap s t) = ENGAGED))"
  by (induction ts) auto

lemma idleScan_state:
  "state (heap (idleScan s u ts) u) = state (heap s u) \<or> state (heap (idleScan s u ts) u) = ENGAGED"
  using idleScan_self [of s u ts] by auto

lemma knockBackPass_untouched:
  assumes "state (heap s r) \<noteq> KNOCK_BACK"
  shows "heap (knockBackPass s) r = heap s r"
  unfolding knockBackPass_def
proof (rule foldl_invariant [where I = "\<lambda>s'::BattleLogic. heap s' r = heap s r"])
  show "heap s r = heap s r" by simp
next
  fix s' :: BattleLogic and x
  assume "heap s' r = heap s r"
  then show "heap (knockBackStep s' x) r = heap s r"
    using assms by (cases "x = r") (simp_all add: knockBackStep_other, simp add: knockBackStep_def)
qed

lemma healthCrossing_engagedStep [simp]:
  "healthCrossing c (heap (engagedStep s x) r) = healthCrossing c (heap s r)"
  by (simp add: healthCrossing_def)

lemma engagedStep_ladder:
  assumes "healthCrossing (config s) (heap s r) = c"
    and "state (heap s r) = ENGAGED \<or> ladderDone c (heap s r)"
  shows "state (heap (engagedStep s x) r) = ENGAGED \<or> ladderDone c (heap (engagedStep s x) r)"
    and "x = r \<or> ladderDone c (heap s r) \<Longrightarrow> ladderDone c (heap (engagedStep s x) r)"
proof -
  show "state (heap (engagedStep s x) r) = ENGAGED \<or> ladderDone c (heap (engagedStep s x) r)"
  proof (cases "x = r")
    case False
    then show ?thesis using assms(2) by (simp add: engagedStep_other)
  next
    case True
    then show ?thesis using assms
      by (auto simp: engagedStep_def updateUnitEngagedState_self ladderDone_def)
  qed
  show "ladderDone c (heap (engagedStep s x) r)" if "x = r \<or> ladderDone c (heap s r)"
  proof (cases "x = r")
    case False
    then show ?thesis using that by (simp add: engagedStep_other)
  next
    case True
    then show ?thesis using assms
      by (auto simp: engagedStep_def updateUnitEngagedState_self ladderDone_def)
  qed
qed

lemma engagedPass_ladder:
  assumes "r \<in> set (unitEntities s)" and "state (heap s r) = ENGAGED"
  shows "ladderDone (healthCrossing (config s) (heap s r)) (heap (engagedPass s) r)"
  unfolding engagedPass_def
proof (rule foldl_visit [where r = r and
      I = "\<lambda>s'::BattleLogic. healthCrossing (config s') (heap s' r) = healthCrossing (config s) (heap s r) \<and>
             (state (heap s' r) = ENGAGED \<or> ladderDone (healthCrossing (config s) (heap s r)) (heap s' r))"])
  show "r \<in> set (unitEntities s)" by (rule assms)
  show "healthCrossing (config s) (heap s r) = healthCrossing (config s) (heap s r) \<and>
    (state (heap s r) = ENGAGED \<or> ladderDone (healthCrossing (config s) (heap s r)) (heap s r))"
    using assms by simp
next
  fix s' :: BattleLogic and x
  assume a: "healthCrossing (config s') (heap s' r) = healthCrossing (config s) (heap s r) \<and>
     (state (heap s' r) = ENGAGED \<or> ladderDone (healthCrossing (config s) (heap s r)) (heap s' r))"
  show "healthCrossing (config (engagedStep s' x)) (heap (engagedStep s' x) r) =
          healthCrossing (config s) (heap s r) \<and>
        (state (heap (engagedStep s' x) r) = ENGAGED \<or>
         ladderDone (healthCrossing (config s) (heap s r)) (heap (engagedStep s' x) r))"
    using a engagedStep_ladder(1) [of s' r _ x] by simp
  show "ladderDone (healthCrossing (config s) (heap s r)) (heap (engagedStep s' r) r)"
    using a engagedStep_ladder(2) [of s' r _ r] by simp
  assume "ladderDone (healthCrossing (config s) (heap s r)) (heap s' r)"
  then show "ladderDone (healthCrossing (config s) (heap s r)) (heap (engagedStep s' x) r)"
    using a engagedStep_ladder(2) [of s' r _ x] by simp
qed

lemma idleStep_ladder:
  assumes "ladderDone c (heap s r)"
  shows "ladderDone c (heap (idleStep s x) r)"
proof (cases "x = r")
  case False
  then show ?thesis using assms by (simp add: idleStep_other)
next
  case True
  show ?thesis
    using assms idleScan_self [of s r "unitEntities s"] unfolding True
    by (auto simp: idleStep_def updateUnitIdleState_def ladderDone_def split: if_splits)
qed

lemma idlePass_ladder:
  "ladderDone c (heap s r) \<Longrightarrow> ladderDone c (heap (idlePass s) r)"
  unfolding idlePass_def
  by (rule foldl_invariant [where I = "\<lambda>s'::BattleLogic. ladderDone c (heap s' r)"])
     (simp_all add: idleStep_ladder)

text \<open>
  C1: an entity that is ENGAGED when the state transitions start is in KNOCK_BACK after
  them, with its engaged entity cleared, if and only if for some configured threshold
  fraction its health is below the fraction of its maximal health while its health before
  the damage of the frame (currentHealth + currentFrameDamage) was at or above it. The
  condition does not mention the engaged target: the ladder is evaluated whether or not
  the entity has just disengaged from a dead or knocked back target.
\<close>

theorem engaged_knock_back_iff:
  assumes "r \<in> set (unitEntities s)" and "state (heap s r) = ENGAGED"
  shows "(state (heap (updateEntityState s) r) = KNOCK_BACK \<longleftrightarrow>
           healthCrossing (config s) (heap s r)) \<and>
         (healthCrossing (config s) (heap s r) \<longrightarrow>
            engagedEntity (heap (updateEntityState s) r) = None)"
proof -
  have h1: "heap (knockBackPass s) r = heap s r"
    using assms(2) by (simp add: knockBackPass_untouched)
  have "ladderDone (healthCrossing (config (knockBackPass s)) (heap (knockBackPass s) r))
          (heap (engagedPass (knockBackPass s)) r)"
    by (rule engagedPass_ladder) (simp_all add: assms h1)
  then have "ladderDone (healthCrossing (config s) (heap s r))
          (heap (engagedPass (knockBackPass s)) r)"
    by (simp add: h1)
  then have "ladderDone (healthCrossing (config s) (heap s r)) (heap (updateEntityState s) r)"
    by (simp add: updateEntityState_heap idlePass_ladder)
  then show ?thesis
    by (auto simp: ladderDone_def split: if_splits)
qed

lemma knockBackStep_self:
  "heap (knockBackStep s u) u =
     (if state (heap s u) = KNOCK_BACK
      then (heap s u)\<lparr> engagedEntity := None,
                 state := (case unitMasterCache s (unitId (heap s u)) of
                             None \<Rightarrow> KNOCK_BACK
                           | Some master \<Rightarrow>
                               if currentKnockBackFrameCount (heap s u) < knockBackFrames master
                               then KNOCK_BACK
                               else if currentHealth (heap s u) < 1 then DEAD else IDLE) \<rparr>
      else heap s u)"
  by (simp add: knockBackStep_def updateUnitKnockBackState_self split: option.splits)

lemma knockBackStep_done:
  assumes "unitMasterCache s (unitId (heap s r)) = Some master"
    and "knockBackOutcome master (heap s r) = st"
    and "state (heap s r) = KNOCK_BACK \<or> knockBackDone st (heap s r)"
  shows "state (heap (knockBackStep s x) r) = KNOCK_BACK \<or> knockBackDone st (heap (knockBackStep s x) r)"
    and "x = r \<or> knockBackDone st (heap s r) \<Longrightarrow> knockBackDone st (heap (knockBackStep s x) r)"
proof -
  show "state (heap (knockBackStep s x) r) = KNOCK_BACK \<or> knockBackDone st (heap (knockBackStep s x) r)"
  proof (cases "x = r")
    case False
    then show ?thesis using assms(3) by (simp add: knockBackStep_other)
  next
    case True
    then show ?thesis using assms
      by (auto simp: knockBackStep_self knockBackDone_def knockBackOutcome_def)
  qed
  show "knockBackDone st (heap (knockBackStep s x) r)" if "x = r \<or> knockBackDone st (heap s r)"
  proof (cases "x = r")
    case False
    then show ?thesis using that by (simp add: knockBackStep_other)
  next
    case True
    then show ?thesis using assms
      by (auto simp: knockBackStep_self knockBackDone_def knockBackOutcome_def)
  qed
qed

lemma knockBackOutcome_knockBackStep [simp]:
  "knockBackOutcome master (heap (knockBackStep s x) r) = knockBackOutcome master (heap s r)"
  by (simp add: knockBackOutcome_def)

lemma knockBackPass_done:
  assumes "r \<in> set (unitEntities s)" and "state (heap s r) = KNOCK_BACK"
    and "unitMasterCache s (unitId (heap s r)) = Some master"
  shows "knockBackDone (knockBackOutcome master (heap s r)) (heap (knockBackPass s) r)"
  unfolding knockBackPass_def
proof (rule foldl_visit [where r = r and
      I = "\<lambda>s'::BattleLogic. unitMasterCache s' (unitId (heap s' r)) = Some master \<and>
             knockBackOutcome master (heap s' r) = knockBackOutcome master (heap s r) \<and>
             (state (heap s' r) = KNOCK_BACK \<or>
              knockBackDone (knockBackOutcome master (heap s r)) (heap s' r))"])
  show "r \<in> set (unitEntities s)" by (rule assms)
  show "unitMasterCache s (unitId (heap s r)) = Some master \<and>
    knockBackOutcome master (heap s r) = knockBackOutcome master (heap s r) \<and>
    (state (heap s r) = KNOCK_BACK \<or> knockBackDone (knockBackOutcome master (heap s r)) (heap s r))"
    using assms by simp
next
  fix s' :: BattleLogic and x
  assume a: "unitMasterCache s' (unitId (heap s' r)) = Some master \<and>
     knockBackOutcome master (heap s' r) = knockBackOutcome master (heap s r) \<and>
     (state (heap s' r) = KNOCK_BACK \<or>
      knockBackDone (knockBackOutcome master (heap s r)) (heap s' r))"
  show "unitMasterCache (knockBackStep s' x) (unitId (heap (knockBackStep s' x) r)) = Some master \<and>
     knockBackOutcome master (heap (knockBackStep s' x) r) = knockBackOutcome master (heap s r) \<and>
     (state (heap (knockBackStep s' x) r) = KNOCK_BACK \<or>
      knockBackDone (knockBackOutcome master (heap s r)) (heap (knockBackStep s' x) r))"
    using a knockBackStep_done(1) [of s' r master _ x] by simp
  show "knockBackDone (knockBackOutcome master (heap s r)) (heap (knockBackStep s' r) r)"
    using a knockBackStep_done(2) [of s' r master _ r] by simp
  assume "knockBackDone (knockBackOutcome master (heap s r)) (heap s' r)"
  then show "knockBackDone (knockBackOutcome master (heap s r)) (heap (knockBackStep s' x) r)"
    using a knockBackStep_done(2) [of s' r master _ x] by simp
qed

lemma engagedPass_untouched:
  assumes "state (heap s r) \<noteq> ENGAGED"
  shows "heap (engagedPass s) r = heap s r"
  unfolding engagedPass_def
proof (rule foldl_invariant [where I = "\<lambda>s'::BattleLogic. heap s' r = heap s r"])
  show "heap s r = heap s r" by simp
next
  fix s' :: BattleLogic and x
  assume "heap s' r = heap s r"
  then show "heap (engagedStep s' x) r = heap s r"
    using assms by (cases "x = r") (simp_all add: engagedStep_other, simp add: engagedStep_def)
qed

lemma idlePass_untouched:
  assumes "state (heap s r) \<noteq> IDLE"
  shows "heap (idlePass s) r = heap s r"
  unfolding idlePass_def
proof (rule foldl_invariant [where I = "\<lambda>s'::BattleLogic. heap s' r = heap s r"])
  show "heap s r = heap s r" by simp
next
  fix s' :: BattleLogic and x
  assume "heap s' r = heap s r"
  then show "heap (idleStep s' x) r = heap s r"
    using assms by (cases "x = r") (simp_all add: idleStep_other, simp add: idleStep_def)
qed

lemma shell_eqD:
  assumes "shell a = shell b"
  shows "id_e a = id_e b" "unitId a = unitId b" "isPlayer a = isPlayer b"
    "state a = state b" "maxHealth a = maxHealth b" "engagedEntity a = engagedEntity b"
proof -
  have "id_e (shell a) = id_e (shell b)" "unitId (shell a) = unitId (shell b)"
    "isPlayer (shell a) = isPlayer (shell b)" "state (shell a) = state (shell b)"
    "maxHealth (shell a) = maxHealth (shell b)" "engagedEntity (shell a) = engagedEntity (shell b)"
    using assms by simp_all
  then show "id_e a = id_e b" "unitId a = unitId b" "isPlayer a = isPlayer b"
    "state a = state b" "maxHealth a = maxHealth b" "engagedEntity a = engagedEntity b"
    by (simp_all add: shell_def)
qed

lemma param_relD:
  assumes "param_rel s s'"
  shows "config s' = config s" "delegator s' = delegator s" "availableCost s' = availableCost s"
    "nextEntityId s' = nextEntityId s" "unitEntities s' = unitEntities s"
    "unitMasterCache s' = unitMasterCache s" "aiWaveCache s' = aiWaveCache s"
    "passedFrameCount s' = passedFrameCount s"
    "spawnRequestedUnitUnitIds s' = spawnRequestedUnitUnitIds s"
    "player_unitIds s' = player_unitIds s"
    "costLog (notifications s') = costLog (notifications s)"
    "id_e (heap s' r) = id_e (heap s r)" "unitId (heap s' r) = unitId (heap s r)"
    "isPlayer (heap s' r) = isPlayer (heap s r)" "state (heap s' r) = state (heap s r)"
    "maxHealth (heap s' r) = maxHealth (heap s r)"
    "engagedEntity (heap s' r) = engagedEntity (heap s r)"
  using assms shell_eqD [of "heap s' r" "heap s r"] by (simp_all add: param_rel_def)

lemma param_rel_refl [simp]: "param_rel s s"
  by (simp add: param_rel_def)

lemma param_rel_trans: "param_rel s s' \<Longrightarrow> param_rel s' s'' \<Longrightarrow> param_rel s s''"
  by (simp add: param_rel_def)

lemma param_rel_modify:
  "shell (f (heap s u)) = shell (heap s u) \<Longrightarrow> param_rel s (modify s u f)"
  by (simp add: param_rel_def)

lemma param_rel_notify:
  "costLog [ev] = [] \<Longrightarrow> param_rel s (notify s ev)"
  by (simp add: param_rel_def costLog_notify split: option.splits)

lemma param_rel_foldl:
  "(\<And>s x. param_rel s (f s x)) \<Longrightarrow> param_rel s (foldl f s xs)"
proof (induction xs arbitrary: s)
  case Nil
  show ?case by simp
next
  case (Cons x xs)
  have "param_rel s (f s x)" by (rule Cons.prems)
  moreover have "param_rel (f s x) (foldl f (f s x) xs)" by (rule Cons.IH) (rule Cons.prems)
  ultimately show ?case by (simp add: param_rel_trans)
qed

lemma updateDamage_rel: "param_rel s (updateDamage s u master)"
  by (auto simp: updateDamage_def Let_def shell_def split: option.splits
      intro!: param_rel_trans [OF param_rel_modify param_rel_notify])

lemma updateDistance_rel: "param_rel s (updateDistance s u master)"
  by (auto simp: updateDistance_def Let_def shell_def split: option.splits
      intro!: param_rel_modify param_rel_trans [OF param_rel_modify param_rel_notify]
        param_rel_trans [OF param_rel_modify param_rel_modify]
        param_rel_trans [OF param_rel_modify param_rel_trans [OF param_rel_modify param_rel_notify]])

lemma parameterStep_rel: "param_rel s (parameterStep s u)"
  by (auto simp: parameterStep_def split: option.splits
      intro: param_rel_trans [OF updateDamage_rel updateDistance_rel])

lemma updateEntityParameter_rel: "param_rel s (updateEntityParameter s)"
  by (simp add: updateEntityParameter_def param_rel_foldl parameterStep_rel)

lemmas updateDamage_keeps [simp] = param_relD [OF updateDamage_rel]

lemmas updateDistance_keeps [simp] = param_relD [OF updateDistance_rel]

lemmas parameterStep_keeps [simp] = param_relD [OF parameterStep_rel]

lemmas updateEntityParameter_keeps [simp] = param_relD [OF updateEntityParameter_rel]

lemma updateDamage_count [simp]:
  "currentKnockBackFrameCount (heap (updateDamage s u master) r) =
     currentKnockBackFrameCount (heap s r)"
  by (simp add: updateDamage_def Let_def split: option.splits)

lemma updateDistance_count:
  "currentKnockBackFrameCount (heap (updateDistance s u master) r) =
     (if r = u then (if state (heap s u) = KNOCK_BACK
                     then currentKnockBackFrameCount (heap s u) + 1 else 0)
      else currentKnockBackFrameCount (heap s r))"
  by (simp add: updateDistance_def Let_def split: option.splits)

lemma parameterStep_count:
  "currentKnockBackFrameCount (heap (parameterStep s x) r) =
     (if x = r \<and> unitMasterCache s (unitId (heap s r)) \<noteq> None
      then (if state (heap s r) = KNOCK_BACK
            then currentKnockBackFrameCount (heap s r) + 1 else 0)
      else currentKnockBackFrameCount (heap s r))"
  by (auto simp: parameterStep_def updateDistance_count split: option.splits)

lemma foldl_parameterStep_count:
  "distinct xs \<Longrightarrow>
   currentKnockBackFrameCount (heap (foldl parameterStep s xs) r) =
     (if r \<in> set xs \<and> unitMasterCache s (unitId (heap s r)) \<noteq> None
      then (if state (heap s r) = KNOCK_BACK
            then currentKnockBackFrameCount (heap s r) + 1 else 0)
      else currentKnockBackFrameCount (heap s r))"
proof (induction xs arbitrary: s)
  case Nil
  show ?case by simp
next
  case (Cons x xs)
  then show ?case by (auto simp: parameterStep_count)
qed

lemma updatePostProcess_unitEntities:
  "unitEntities (updatePostProcess s) = filter (\<lambda>u. state (heap s u) \<noteq> DEAD) (unitEntities s)"
  by (simp add: updatePostProcess_def Let_def foldl_keeps [where g = unitEntities])

lemma foldl_reset_heap:
  "heap (foldl (\<lambda>s' u. modify s' u (\<lambda>e. e\<lparr> currentFrameDamage := 0 \<rparr>)) s xs) r =
     (if r \<in> set xs then (heap s r)\<lparr> currentFrameDamage := 0 \<rparr> else heap s r)"
  by (induction xs arbitrary: s) simp_all

lemma updatePostProcess_heap:
  "heap (updatePostProcess s) r =
     (if r \<in> set (unitEntities s) \<and> state (heap s r) \<noteq> DEAD
      then (heap s r)\<lparr> currentFrameDamage := 0 \<rparr> else heap s r)"
  by (simp add: updatePostProcess_def Let_def foldl_reset_heap)

lemma updatePostProcess_keeps [simp]:
  "config (updatePostProcess s) = config s"
  "delegator (updatePostProcess s) = delegator s"
  "availableCost (updatePostProcess s) = availableCost s"
  "nextEntityId (updatePostProcess s) = nextEntityId s"
  "unitMasterCache (updatePostProcess s) = unitMasterCache s"
  "aiWaveCache (updatePostProcess s) = aiWaveCache s"
  "passedFrameCount (updatePostProcess s) = passedFrameCount s"
  "spawnRequestedUnitUnitIds (updatePostProcess s) = spawnRequestedUnitUnitIds s"
  "player_unitIds (updatePostProcess s) = player_unitIds s"
  "notifications (updatePostProcess s) = notifications s"
  "id_e (heap (updatePostProcess s) r) = id_e (heap s r)"
  "unitId (heap (updatePostProcess s) r) = unitId (heap s r)"
  "isPlayer (heap (updatePostProcess s) r) = isPlayer (heap s r)"
  "state (heap (updatePostProcess s) r) = state (heap s r)"
  "currentHealth (heap (updatePostProcess s) r) = currentHealth (heap s r)"
  "maxHealth (heap (updatePostProcess s) r) = maxHealth (heap s r)"
  "distance (heap (updatePostProcess s) r) = distance (heap s r)"
  "engagedEntity (heap (updatePostProcess s) r) = engagedEntity (heap s r)"
  "currentKnockBackFrameCount (heap (updatePostProcess s) r) = currentKnockBackFrameCount (heap s r)"
  by (simp_all add: updatePostProcess_heap)
     (simp_all add: updatePostProcess_def Let_def foldl_keeps)

lemma update_unitEntities:
  "unitEntities (update s) =
     filter (\<lambda>u. state (heap (updateEntityState (beforeEntityState s)) u) \<noteq> DEAD)
       (unitEntities (beforeEntityState s))"
  by (simp add: update_def Let_def updatePostProcess_unitEntities)

lemma update_heap_fields [simp]:
  "state (heap (update s) r) = state (heap (updateEntityState (beforeEntityState s)) r)"
  "engagedEntity (heap (update s) r) = engagedEntity (heap (updateEntityState (beforeEntityState s)) r)"
  "isPlayer (heap (update s) r) = isPlayer (heap (beforeEntityState s) r)"
  "currentHealth (heap (update s) r) = currentHealth (heap (beforeEntityState s) r)"
  by (simp_all add: update_def Let_def)

lemma updateEntityState_from_idle:
  assumes "state (heap s r) = IDLE"
  shows "ladderDone False (heap (updateEntityState s) r)"
proof -
  have "heap (engagedPass (knockBackPass s)) r = heap s r"
    using assms by (simp add: engagedPass_untouched knockBackPass_untouched)
  then have "ladderDone False (heap (engagedPass (knockBackPass s)) r)"
    using assms by (simp add: ladderDone_def)
  then show ?thesis
    by (simp add: updateEntityState_heap idlePass_ladder)
qed

lemma updateEntityState_from_engaged:
  assumes "r \<in> set (unitEntities s)" and "state (heap s r) = ENGAGED"
  shows "ladderDone (healthCrossing (config s) (heap s r)) (heap (updateEntityState s) r)"
proof -
  have h1: "heap (knockBackPass s) r = heap s r"
    using assms(2) by (simp add: knockBackPass_untouched)
  have "ladderDone (healthCrossing (config (knockBackPass s)) (heap (knockBackPass s) r))
          (heap (engagedPass (knockBackPass s)) r)"
    by (rule engagedPass_ladder) (simp_all add: assms h1)
  then have "ladderDone (healthCrossing (config s) (heap s r))
          (heap (engagedPass (knockBackPass s)) r)"
    by (simp add: h1)
  then show ?thesis
    by (simp add: updateEntityState_heap idlePass_ladder)
qed

text \<open>
  C6: the knock back resolution of an entity that is in KNOCK_BACK when the state
  transitions start and whose unit master is present clears its engaged entity and leaves
  it in KNOCK_BACK while the counter is below the master's knockBackFrames, and otherwise
  makes it DEAD when its health is below 1 and IDLE when not; the resolution of the
  engaged entities does not touch it, and when the outcome is not IDLE this is how the
  state transitions leave it. The parameter update of a frame has incremented the counter
  of such an entity once.
\<close>

theorem knock_back_resolution:
  assumes "r \<in> set (unitEntities s)" and "state (heap s r) = KNOCK_BACK"
    and "unitMasterCache s (unitId (heap s r)) = Some master"
  shows "engagedEntity (heap (knockBackPass s) r) = None \<and>
         state (heap (knockBackPass s) r) = knockBackOutcome master (heap s r) \<and>
         heap (engagedPass (knockBackPass s)) r = heap (knockBackPass s) r \<and>
         (knockBackOutcome master (heap s r) \<noteq> IDLE \<longrightarrow>
            heap (updateEntityState s) r = heap (knockBackPass s) r) \<and>
         (distinct (unitEntities s) \<longrightarrow>
            currentKnockBackFrameCount (heap (updateEntityParameter s) r) =
              currentKnockBackFrameCount (heap s r) + 1)"
proof -
  have kb: "knockBackDone (knockBackOutcome master (heap s r)) (heap (knockBackPass s) r)"
    using assms by (rule knockBackPass_done)
  have "knockBackOutcome master (heap s r) \<noteq> ENGAGED"
    by (simp add: knockBackOutcome_def)
  then have ne: "state (heap (knockBackPass s) r) \<noteq> ENGAGED"
    using kb by (simp add: knockBackDone_def)
  have eng: "heap (engagedPass (knockBackPass s)) r = heap (knockBackPass s) r"
    using ne by (rule engagedPass_untouched)
  have idle: "heap (updateEntityState s) r = heap (knockBackPass s) r"
    if "knockBackOutcome master (heap s r) \<noteq> IDLE"
  proof -
    have "state (heap (engagedPass (knockBackPass s)) r) \<noteq> IDLE"
      using that kb by (simp add: eng knockBackDone_def)
    then show ?thesis
      by (simp add: updateEntityState_heap idlePass_untouched eng)
  qed
  have count: "currentKnockBackFrameCount (heap (updateEntityParameter s) r) =
      currentKnockBackFrameCount (heap s r) + 1" if "distinct (unitEntities s)"
    using that assms by (simp add: updateEntityParameter_def foldl_parameterStep_count)
  show ?thesis
    using kb eng idle count by (simp add: knockBackDone_def)
qed

text \<open>
  An entity that is IDLE or ENGAGED when the state transitions of a frame start,
  whatever its health, is not DEAD after the frame and stays in the live collection; it
  is then IDLE or ENGAGED again, unless it was ENGAGED and the damage of the frame crossed
  a knock back threshold.
\<close>

lemma survives_frame:
  assumes "r \<in> set (unitEntities (beforeEntityState s))"
    and "state (heap (beforeEntityState s) r) = IDLE \<or> state (heap (beforeEntityState s) r) = ENGAGED"
  shows "state (heap (update s) r) \<noteq> DEAD \<and> r \<in> set (unitEntities (update s)) \<and>
         (state (heap (beforeEntityState s) r) = IDLE \<or>
          \<not> healthCrossing (config (beforeEntityState s)) (heap (beforeEntityState s) r) \<longrightarrow>
            state (heap (update s) r) = IDLE \<or> state (heap (update s) r) = ENGAGED)"
proof -
  let ?b = "beforeEntityState s"
  let ?c = "state (heap ?b r) = ENGAGED \<and> healthCrossing (config ?b) (heap ?b r)"
  have "ladderDone ?c (heap (updateEntityState ?b) r)"
  proof (cases "state (heap ?b r) = IDLE")
    case True
    then show ?thesis using updateEntityState_from_idle [of ?b r] by simp
  next
    case False
    then have "state (heap ?b r) = ENGAGED" using assms(2) by simp
    then show ?thesis using updateEntityState_from_engaged [of r ?b] assms(1) by simp
  qed
  then have st: "if ?c then state (heap (update s) r) = KNOCK_BACK
      else state (heap (update s) r) = IDLE \<or> state (heap (update s) r) = ENGAGED"
    by (simp add: ladderDone_def split: if_splits)
  then have nd: "state (heap (update s) r) \<noteq> DEAD"
    by (auto split: if_splits)
  then have "r \<in> set (unitEntities (update s))"
    using assms(1) by (simp add: update_unitEntities)
  then show ?thesis using st nd by (auto split: if_splits)
qed

lemmas engine_defs =
  beforeEntityState_def updateAvailableCost_def updateAISpawn_def updateSpawnRequest_def
  updateEntityParameter_def parameterStep_def updateDamage_def updateDistance_def
  notify_def modify_def availablePlayerUnitIds_def Let_def

lemmas scenario_defs = scenarioC_def duel_def fighter_def permissive_def scenarioMaster_def

lemma scenarioC_before:
  "heap (beforeEntityState (scenarioC h)) 0 =
     (fighter 0 True ENGAGED (h - 10) (Some 1))\<lparr> currentFrameDamage := 10 \<rparr>"
  "unitEntities (beforeEntityState (scenarioC h)) = [0, 1]"
  "knockBackHealthThreasholds (config (beforeEntityState (scenarioC h))) = [1 / 2]"
  by (simp_all add: engine_defs scenario_defs)

lemma healthCrossing_list_ex:
  "healthCrossing c e =
     list_ex (\<lambda>rate. currentHealth e < maxHealth e * rate \<and>
                      maxHealth e * rate \<le> currentHealth e + currentFrameDamage e)
       (knockBackHealthThreasholds c)"
  by (simp add: healthCrossing_def list_ex_iff)

text \<open>
  Scenario C (power 10, threshold 0.5, maximal health 100): on the frame that takes the
  health from 55 to 45 the unit is knocked back; on the frame before, from 65 to 55, it is not.
\<close>

theorem engaged_knock_back_iff_witness:
  "0 \<in> set (unitEntities (beforeEntityState (scenarioC 55))) \<and>
   state (heap (beforeEntityState (scenarioC 55)) 0) = ENGAGED \<and>
   currentHealth (heap (beforeEntityState (scenarioC 55)) 0) = 45 \<and>
   currentFrameDamage (heap (beforeEntityState (scenarioC 55)) 0) = 10 \<and>
   state (heap (updateEntityState (beforeEntityState (scenarioC 55))) 0) = KNOCK_BACK \<and>
   engagedEntity (heap (updateEntityState (beforeEntityState (scenarioC 55))) 0) = None \<and>
   state (heap (beforeEntityState (scenarioC 65)) 0) = ENGAGED \<and>
   currentHealth (heap (beforeEntityState (scenarioC 65)) 0) = 55 \<and>
   state (heap (updateEntityState (beforeEntityState (scenarioC 65))) 0) \<noteq> KNOCK_BACK"
  using engaged_knock_back_iff [of 0 "beforeEntityState (scenarioC 55)"]
    engaged_knock_back_iff [of 0 "beforeEntityState (scenarioC 65)"]
  by (simp add: scenarioC_before healthCrossing_list_ex fighter_def)

text \<open>
  A unit without health whose knock back has lasted its two frames becomes DEAD.
\<close>

theorem knock_back_resolution_witness:
  "0 \<in> set (unitEntities (knockedBack 0)) \<and> state (heap (knockedBack 0) 0) = KNOCK_BACK \<and>
   unitMasterCache (knockedBack 0) (unitId (heap (knockedBack 0) 0)) = Some scenarioMaster \<and>
   engagedEntity (heap (knockBackPass (knockedBack 0)) 0) = None \<and>
   state (heap (knockBackPass (knockedBack 0)) 0) = DEAD \<and>
   state (heap (updateEntityState (knockedBack 0)) 0) = DEAD \<and>
   currentKnockBackFrameCount (heap (updateEntityParameter (knockedBack 0)) 0) = 3"
  using knock_back_resolution [of 0 "knockedBack 0" scenarioMaster]
  by (simp add: knockedBack_def scenario_defs knockBackOutcome_def)

lemma spawn_rel_refl [simp]: "spawn_rel s s"
  by (simp add: spawn_rel_def)

lemma upt_append_upt: "i \<le> j \<Longrightarrow> j \<le> k \<Longrightarrow> [i ..< j] @ [j ..< k] = [i ..< (k::nat)]"
  by (metis le_Suc_ex upt_add_eq_append)

lemma spawn_rel_trans:
  assumes "spawn_rel s s'" and "spawn_rel s' s''"
  shows "spawn_rel s s''"
proof -
  have le: "nextEntityId s \<le> nextEntityId s'" "nextEntityId s' \<le> nextEntityId s''"
    using assms by (simp_all add: spawn_rel_def)
  have "unitEntities s'' = unitEntities s @ [nextEntityId s ..< nextEntityId s'] @
          [nextEntityId s' ..< nextEntityId s'']"
    using assms by (simp add: spawn_rel_def)
  then have ents: "unitEntities s'' = unitEntities s @ [nextEntityId s ..< nextEntityId s'']"
    using le by (simp add: upt_append_upt)
  have old: "heap s'' r = heap s r" if "r < nextEntityId s" for r
    using that assms le by (simp add: spawn_rel_def)
  have new: "state (heap s'' r) = IDLE \<and> engagedEntity (heap s'' r) = None \<and> id_e (heap s'' r) = r"
    if "nextEntityId s \<le> r" "r < nextEntityId s''" for r
  proof (cases "r < nextEntityId s'")
    case True
    then have "heap s'' r = heap s' r" using assms(2) by (simp add: spawn_rel_def)
    then show ?thesis using True that(1) assms(1) by (simp add: spawn_rel_def)
  next
    case False
    then show ?thesis using that(2) assms(2) by (simp add: spawn_rel_def)
  qed
  show ?thesis
    unfolding spawn_rel_def using assms le ents old new by (simp add: spawn_rel_def)
qed

lemma spawnStep_rel: "spawn_rel (snd ts) (snd (spawnStep ts req))"
  by (simp add: spawnStep_def Let_def spawn_rel_def costLog_notify new_UnitEntity_def
      split: option.splits)

lemma foldl_spawnStep_rel: "spawn_rel (snd ts) (snd (foldl spawnStep ts reqs))"
proof (induction reqs arbitrary: ts)
  case Nil
  show ?case by simp
next
  case (Cons req reqs)
  have "spawn_rel (snd ts) (snd (spawnStep ts req))" by (rule spawnStep_rel)
  moreover have "spawn_rel (snd (spawnStep ts req)) (snd (foldl spawnStep (spawnStep ts req) reqs))"
    by (rule Cons.IH)
  ultimately show ?case by (simp add: spawn_rel_trans)
qed

lemma updateAvailableCost_keeps [simp]:
  "config (updateAvailableCost s n) = config s"
  "delegator (updateAvailableCost s n) = delegator s"
  "nextEntityId (updateAvailableCost s n) = nextEntityId s"
  "unitEntities (updateAvailableCost s n) = unitEntities s"
  "heap (updateAvailableCost s n) = heap s"
  "unitMasterCache (updateAvailableCost s n) = unitMasterCache s"
  "aiWaveCache (updateAvailableCost s n) = aiWaveCache s"
  "passedFrameCount (updateAvailableCost s n) = passedFrameCount s"
  "spawnRequestedUnitUnitIds (updateAvailableCost s n) = spawnRequestedUnitUnitIds s"
  "player_unitIds (updateAvailableCost s n) = player_unitIds s"
  by (simp_all add: updateAvailableCost_def Let_def)

lemma updateAvailableCost_cost:
  "availableCost (updateAvailableCost s n) = min n (maxAvailableCost (config s))"
  by (simp add: updateAvailableCost_def Let_def min_def)

lemma updateAvailableCost_costLog:
  "costLog (notifications (updateAvailableCost s n)) =
     costLog (notifications s) @
       (case delegator s of
          None \<Rightarrow> []
        | Some d \<Rightarrow> [(min n (maxAvailableCost (config s)), maxAvailableCost (config s))])"
  by (simp add: updateAvailableCost_def Let_def costLog_notify min_def split: option.splits)

lemma requestSpawn_keeps [simp]:
  "config (requestSpawn s uid isP) = config s"
  "delegator (requestSpawn s uid isP) = delegator s"
  "availableCost (requestSpawn s uid isP) = availableCost s"
  "nextEntityId (requestSpawn s uid isP) = nextEntityId s"
  "unitEntities (requestSpawn s uid isP) = unitEntities s"
  "heap (requestSpawn s uid isP) = heap s"
  "unitMasterCache (requestSpawn s uid isP) = unitMasterCache s"
  "aiWaveCache (requestSpawn s uid isP) = aiWaveCache s"
  "passedFrameCount (requestSpawn s uid isP) = passedFrameCount s"
  "player_unitIds (requestSpawn s uid isP) = player_unitIds s"
  "notifications (requestSpawn s uid isP) = notifications s"
  by (simp_all add: requestSpawn_def)

lemma foldl_requestSpawnAI:
  "foldl requestSpawnAI s ws =
     s\<lparr> spawnRequestedUnitUnitIds := spawnRequestedUnitUnitIds s @ map (\<lambda>u. (u, False)) ws \<rparr>"
  by (induction ws arbitrary: s) (simp_all add: requestSpawnAI_def requestSpawn_def)

lemma updateAISpawn_eq:
  "updateAISpawn s =
     s\<lparr> spawnRequestedUnitUnitIds :=
          spawnRequestedUnitUnitIds s @ map (\<lambda>u. (u, False)) (currentWave s) \<rparr>"
  by (simp add: updateAISpawn_def currentWave_def foldl_requestSpawnAI split: option.splits)

lemma updateAISpawn_keeps [simp]:
  "config (updateAISpawn s) = config s"
  "delegator (updateAISpawn s) = delegator s"
  "availableCost (updateAISpawn s) = availableCost s"
  "nextEntityId (updateAISpawn s) = nextEntityId s"
  "unitEntities (updateAISpawn s) = unitEntities s"
  "heap (updateAISpawn s) = heap s"
  "unitMasterCache (updateAISpawn s) = unitMasterCache s"
  "aiWaveCache (updateAISpawn s) = aiWaveCache s"
  "passedFrameCount (updateAISpawn s) = passedFrameCount s"
  "player_unitIds (updateAISpawn s) = player_unitIds s"
  "notifications (updateAISpawn s) = notifications s"
  by (simp_all add: updateAISpawn_eq)

lemma updateSpawnRequest_queue [simp]:
  "spawnRequestedUnitUnitIds (updateSpawnRequest s) = []"
  by (simp add: updateSpawnRequest_def Let_def)

lemma updateSpawnRequest_keeps [simp]:
  "config (updateSpawnRequest s) = config s"
  "delegator (updateSpawnRequest s) = delegator s"
  "unitMasterCache (updateSpawnRequest s) = unitMasterCache s"
  "aiWaveCache (updateSpawnRequest s) = aiWaveCache s"
  "passedFrameCount (updateSpawnRequest s) = passedFrameCount s"
  "player_unitIds (updateSpawnRequest s) = player_unitIds s"
  using foldl_spawnStep_rel [of "(availableCost s, s)" "spawnRequestedUnitUnitIds s"]
  by (simp_all add: updateSpawnRequest_def Let_def spawn_rel_def)

lemma updateSpawnRequest_alloc:
  "\<exists>s'. spawn_rel s s' \<and> unitEntities (updateSpawnRequest s) = unitEntities s' \<and>
     heap (updateSpawnRequest s) = heap s' \<and> nextEntityId (updateSpawnRequest s) = nextEntityId s'"
proof (cases "spawnRequestedUnitUnitIds s = []")
  case True
  then have "updateSpawnRequest s = s" by (simp add: updateSpawnRequest_def)
  then show ?thesis using spawn_rel_refl by metis
next
  case False
  let ?s' = "snd (foldl spawnStep (availableCost s, s) (spawnRequestedUnitUnitIds s))"
  have "spawn_rel s ?s'"
    using foldl_spawnStep_rel [of "(availableCost s, s)" "spawnRequestedUnitUnitIds s"] by simp
  moreover have "unitEntities (updateSpawnRequest s) = unitEntities ?s'"
    "heap (updateSpawnRequest s) = heap ?s'"
    "nextEntityId (updateSpawnRequest s) = nextEntityId ?s'"
    using False by (simp_all add: updateSpawnRequest_def Let_def)
  ultimately show ?thesis by blast
qed

lemma updateSpawnRequest_entities:
  "unitEntities (updateSpawnRequest s) =
     unitEntities s @ [nextEntityId s ..< nextEntityId (updateSpawnRequest s)]"
  "nextEntityId s \<le> nextEntityId (updateSpawnRequest s)"
  "r < nextEntityId s \<Longrightarrow> heap (updateSpawnRequest s) r = heap s r"
  "nextEntityId s \<le> r \<Longrightarrow> r < nextEntityId (updateSpawnRequest s) \<Longrightarrow>
     state (heap (updateSpawnRequest s) r) = IDLE \<and>
     engagedEntity (heap (updateSpawnRequest s) r) = None \<and> id_e (heap (updateSpawnRequest s) r) = r"
proof -
  obtain s' where s': "spawn_rel s s'" "unitEntities (updateSpawnRequest s) = unitEntities s'"
    "heap (updateSpawnRequest s) = heap s'" "nextEntityId (updateSpawnRequest s) = nextEntityId s'"
    using updateSpawnRequest_alloc by blast
  show "unitEntities (updateSpawnRequest s) =
     unitEntities s @ [nextEntityId s ..< nextEntityId (updateSpawnRequest s)]"
    using s' by (simp add: spawn_rel_def)
  show "nextEntityId s \<le> nextEntityId (updateSpawnRequest s)"
    using s' by (simp add: spawn_rel_def)
  show "heap (updateSpawnRequest s) r = heap s r" if "r < nextEntityId s"
    using s' that by (simp add: spawn_rel_def)
  show "state (heap (updateSpawnRequest s) r) = IDLE \<and>
     engagedEntity (heap (updateSpawnRequest s) r) = None \<and> id_e (heap (updateSpawnRequest s) r) = r"
    if "nextEntityId s \<le> r" "r < nextEntityId (updateSpawnRequest s)"
    using s' that by (simp add: spawn_rel_def)
qed

lemma spawnStep_accepted:
  "acceptedRequests (unitMasterCache (snd ts)) (fst ts) (req # reqs) =
     (if nextEntityId (snd (spawnStep ts req)) = nextEntityId (snd ts) then []
      else [req]) @
     acceptedRequests (unitMasterCache (snd ts)) (fst (spawnStep ts req)) reqs"
  by (cases req) (simp add: spawnStep_def Let_def split: option.splits)

lemma spawnStep_next:
  "nextEntityId (snd (spawnStep ts req)) = nextEntityId (snd ts) \<or>
   nextEntityId (snd (spawnStep ts req)) = Suc (nextEntityId (snd ts)) \<and>
   kindOf (snd (spawnStep ts req)) (nextEntityId (snd ts)) = req \<and>
   freshlySpawned (snd (spawnStep ts req)) (nextEntityId (snd ts))"
  by (cases req)
     (simp add: spawnStep_def Let_def kindOf_def freshlySpawned_def new_UnitEntity_def
       split: option.splits)

lemma spawnStep_masters [simp]:
  "unitMasterCache (snd (spawnStep ts req)) = unitMasterCache (snd ts)"
  using spawnStep_rel [of ts req] by (simp add: spawn_rel_def)

lemma foldl_spawnStep_masters [simp]:
  "unitMasterCache (snd (foldl spawnStep ts reqs)) = unitMasterCache (snd ts)"
  using foldl_spawnStep_rel [of ts reqs] by (simp add: spawn_rel_def)

lemma foldl_spawnStep_accepted:
  "map (kindOf (snd (foldl spawnStep ts reqs)))
     [nextEntityId (snd ts) ..< nextEntityId (snd (foldl spawnStep ts reqs))] =
   acceptedRequests (unitMasterCache (snd ts)) (fst ts) reqs"
proof (induction reqs arbitrary: ts)
  case Nil
  show ?case by simp
next
  case (Cons req reqs)
  let ?t1 = "spawnStep ts req"
  let ?t2 = "foldl spawnStep ?t1 reqs"
  have rel: "spawn_rel (snd ?t1) (snd ?t2)" by (rule foldl_spawnStep_rel)
  have IH: "map (kindOf (snd ?t2)) [nextEntityId (snd ?t1) ..< nextEntityId (snd ?t2)] =
      acceptedRequests (unitMasterCache (snd ts)) (fst ?t1) reqs"
    using Cons.IH [of ?t1] by simp
  show ?case
  proof (cases "nextEntityId (snd ?t1) = nextEntityId (snd ts)")
    case True
    then show ?thesis using IH by (simp add: spawnStep_accepted)
  next
    case False
    then have n1: "nextEntityId (snd ?t1) = Suc (nextEntityId (snd ts))"
      and k: "kindOf (snd ?t1) (nextEntityId (snd ts)) = req"
      using spawnStep_next [of ts req] by auto
    have le: "Suc (nextEntityId (snd ts)) \<le> nextEntityId (snd ?t2)"
      using rel n1 by (simp add: spawn_rel_def)
    have "heap (snd ?t2) (nextEntityId (snd ts)) = heap (snd ?t1) (nextEntityId (snd ts))"
      using rel n1 by (simp add: spawn_rel_def)
    then have k2: "kindOf (snd ?t2) (nextEntityId (snd ts)) = req"
      using k by (simp add: kindOf_def)
    have "[nextEntityId (snd ts) ..< nextEntityId (snd ?t2)] =
        nextEntityId (snd ts) # [Suc (nextEntityId (snd ts)) ..< nextEntityId (snd ?t2)]"
      using le by (simp add: upt_conv_Cons)
    then show ?thesis using IH n1 k2 False by (simp add: spawnStep_accepted)
  qed
qed

lemma freshlySpawned_cong:
  "heap s' r = heap s r \<Longrightarrow> unitMasterCache s' = unitMasterCache s \<Longrightarrow>
   freshlySpawned s' r = freshlySpawned s r"
  by (simp add: freshlySpawned_def cong: option.case_cong)

lemma foldl_spawnStep_fresh:
  assumes "nextEntityId (snd ts) \<le> r" and "r < nextEntityId (snd (foldl spawnStep ts reqs))"
  shows "freshlySpawned (snd (foldl spawnStep ts reqs)) r"
  using assms
proof (induction reqs arbitrary: ts)
  case Nil
  then show ?case by simp
next
  case (Cons req reqs)
  let ?t1 = "spawnStep ts req"
  let ?t2 = "foldl spawnStep ?t1 reqs"
  have rel: "spawn_rel (snd ?t1) (snd ?t2)" by (rule foldl_spawnStep_rel)
  show ?case
  proof (cases "nextEntityId (snd ?t1) \<le> r")
    case True
    then show ?thesis using Cons.IH [of ?t1] Cons.prems by simp
  next
    case False
    then have "nextEntityId (snd ?t1) \<noteq> nextEntityId (snd ts)" using Cons.prems by simp
    then have n1: "nextEntityId (snd ?t1) = Suc (nextEntityId (snd ts))"
      and f: "freshlySpawned (snd ?t1) (nextEntityId (snd ts))"
      using spawnStep_next [of ts req] by auto
    have r: "r = nextEntityId (snd ts)" using False n1 Cons.prems by simp
    have "heap (snd ?t2) r = heap (snd ?t1) r"
      using rel n1 r by (simp add: spawn_rel_def)
    then have "freshlySpawned (snd ?t2) r = freshlySpawned (snd ?t1) r"
      by (rule freshlySpawned_cong) simp
    then show ?thesis using f r by simp
  qed
qed

lemma foldl_spawnStep_cost:
  "fst (foldl spawnStep ts reqs) =
     fst ts - playerCost (unitMasterCache (snd ts))
                (acceptedRequests (unitMasterCache (snd ts)) (fst ts) reqs)"
proof (induction reqs arbitrary: ts)
  case Nil
  show ?case by (simp add: playerCost_def)
next
  case (Cons req reqs)
  have "fst (spawnStep ts req) - playerCost (unitMasterCache (snd ts))
          (acceptedRequests (unitMasterCache (snd ts)) (fst (spawnStep ts req)) reqs) =
        fst ts - playerCost (unitMasterCache (snd ts))
          (acceptedRequests (unitMasterCache (snd ts)) (fst ts) (req # reqs))"
    by (cases req) (simp add: spawnStep_def Let_def playerCost_def split: option.splits)
  then show ?case using Cons.IH [of "spawnStep ts req"] by simp
qed

lemma update_keeps [simp]:
  "config (update s) = config s"
  "delegator (update s) = delegator s"
  "unitMasterCache (update s) = unitMasterCache s"
  "aiWaveCache (update s) = aiWaveCache s"
  "player_unitIds (update s) = player_unitIds s"
  "passedFrameCount (update s) = Suc (passedFrameCount s)"
  "spawnRequestedUnitUnitIds (update s) = []"
  "unitId (heap (update s) r) = unitId (heap (beforeEntityState s) r)"
  "id_e (heap (update s) r) = id_e (heap (beforeEntityState s) r)"
  by (simp_all add: update_def Let_def beforeEntityState_def)

lemma update_nextEntityId: "nextEntityId (update s) = nextEntityId (beforeEntityState s)"
  by (simp add: update_def Let_def)

lemma updateSpawnRequest_accepted:
  "map (kindOf (updateSpawnRequest s)) [nextEntityId s ..< nextEntityId (updateSpawnRequest s)] =
     acceptedRequests (unitMasterCache s) (availableCost s) (spawnRequestedUnitUnitIds s)"
proof (cases "spawnRequestedUnitUnitIds s = []")
  case True
  then show ?thesis by (simp add: updateSpawnRequest_def)
next
  case False
  let ?t = "foldl spawnStep (availableCost s, s) (spawnRequestedUnitUnitIds s)"
  have "kindOf (updateSpawnRequest s) = kindOf (snd ?t)"
    using False by (simp add: updateSpawnRequest_def Let_def kindOf_def fun_eq_iff)
  moreover have "nextEntityId (updateSpawnRequest s) = nextEntityId (snd ?t)"
    using False by (simp add: updateSpawnRequest_def Let_def)
  ultimately show ?thesis
    using foldl_spawnStep_accepted [of "(availableCost s, s)" "spawnRequestedUnitUnitIds s"]
    by simp
qed

lemma updateSpawnRequest_fresh:
  assumes "nextEntityId s \<le> r" and "r < nextEntityId (updateSpawnRequest s)"
  shows "freshlySpawned (updateSpawnRequest s) r"
proof (cases "spawnRequestedUnitUnitIds s = []")
  case True
  then show ?thesis using assms by (simp add: updateSpawnRequest_def)
next
  case False
  let ?t = "foldl spawnStep (availableCost s, s) (spawnRequestedUnitUnitIds s)"
  have "freshlySpawned (snd ?t) r"
    using assms False by (intro foldl_spawnStep_fresh) (simp_all add: updateSpawnRequest_def Let_def)
  moreover have "freshlySpawned (updateSpawnRequest s) r = freshlySpawned (snd ?t) r"
    using False by (intro freshlySpawned_cong) (simp_all add: updateSpawnRequest_def Let_def)
  ultimately show ?thesis by simp
qed

lemma updateSpawnRequest_cost:
  assumes "spawnRequestedUnitUnitIds s \<noteq> []"
  shows "availableCost (updateSpawnRequest s) =
     min (availableCost s - playerCost (unitMasterCache s)
            (acceptedRequests (unitMasterCache s) (availableCost s) (spawnRequestedUnitUnitIds s)))
         (maxAvailableCost (config s))"
proof -
  let ?t = "foldl spawnStep (availableCost s, s) (spawnRequestedUnitUnitIds s)"
  have "config (snd ?t) = config s"
    using foldl_spawnStep_rel [of "(availableCost s, s)" "spawnRequestedUnitUnitIds s"]
    by (simp add: spawn_rel_def)
  then have "availableCost (updateSpawnRequest s) = min (fst ?t) (maxAvailableCost (config s))"
    using assms by (simp add: updateSpawnRequest_def Let_def updateAvailableCost_cost)
  then show ?thesis
    using foldl_spawnStep_cost [of "(availableCost s, s)" "spawnRequestedUnitUnitIds s"] by simp
qed

text \<open>
  C2: a player request either succeeds as a whole or fails as a whole. One iteration of
  the spawn loop on a player request leaves the running cost counter and the engine as
  they were when the unit master is missing or the counter does not cover the cost;
  otherwise it deducts the cost from the counter once and appends one new entity, whose
  id is the next sequential id and which is IDLE at the maximal health of its master.
  After the loop the counter (the available cost less the cost of every accepted player
  request) is written back through updateAvailableCost, the entities created are those of
  the accepted requests, and the pending queue is empty, also after the whole frame.
\<close>

theorem spawn_atomicity:
  "(case unitMasterCache s uid of
      None \<Rightarrow> spawnStep (tmpCost, s) (uid, True) = (tmpCost, s)
    | Some master \<Rightarrow>
        if tmpCost - cost master < 0 then spawnStep (tmpCost, s) (uid, True) = (tmpCost, s)
        else fst (spawnStep (tmpCost, s) (uid, True)) = tmpCost - cost master \<and>
             unitEntities (snd (spawnStep (tmpCost, s) (uid, True))) =
               unitEntities s @ [nextEntityId s] \<and>
             nextEntityId (snd (spawnStep (tmpCost, s) (uid, True))) = Suc (nextEntityId s) \<and>
             kindOf (snd (spawnStep (tmpCost, s) (uid, True))) (nextEntityId s) = (uid, True) \<and>
             freshlySpawned (snd (spawnStep (tmpCost, s) (uid, True))) (nextEntityId s) \<and>
             availableCost (snd (spawnStep (tmpCost, s) (uid, True))) = availableCost s) \<and>
   (spawnRequestedUnitUnitIds s \<noteq> [] \<longrightarrow>
      availableCost (updateSpawnRequest s) =
        min (availableCost s - playerCost (unitMasterCache s)
               (acceptedRequests (unitMasterCache s) (availableCost s) (spawnRequestedUnitUnitIds s)))
            (maxAvailableCost (config s))) \<and>
   unitEntities (updateSpawnRequest s) =
     unitEntities s @ [nextEntityId s ..< nextEntityId (updateSpawnRequest s)] \<and>
   map (kindOf (updateSpawnRequest s)) [nextEntityId s ..< nextEntityId (updateSpawnRequest s)] =
     acceptedRequests (unitMasterCache s) (availableCost s) (spawnRequestedUnitUnitIds s) \<and>
   spawnRequestedUnitUnitIds (updateSpawnRequest s) = [] \<and>
   spawnRequestedUnitUnitIds (update s) = []"
proof -
  have step: "case unitMasterCache s uid of
      None \<Rightarrow> spawnStep (tmpCost, s) (uid, True) = (tmpCost, s)
    | Some master \<Rightarrow>
        if tmpCost - cost master < 0 then spawnStep (tmpCost, s) (uid, True) = (tmpCost, s)
        else fst (spawnStep (tmpCost, s) (uid, True)) = tmpCost - cost master \<and>
             unitEntities (snd (spawnStep (tmpCost, s) (uid, True))) =
               unitEntities s @ [nextEntityId s] \<and>
             nextEntityId (snd (spawnStep (tmpCost, s) (uid, True))) = Suc (nextEntityId s) \<and>
             kindOf (snd (spawnStep (tmpCost, s) (uid, True))) (nextEntityId s) = (uid, True) \<and>
             freshlySpawned (snd (spawnStep (tmpCost, s) (uid, True))) (nextEntityId s) \<and>
             availableCost (snd (spawnStep (tmpCost, s) (uid, True))) = availableCost s"
    by (simp add: spawnStep_def Let_def kindOf_def freshlySpawned_def new_UnitEntity_def
        split: option.splits)
  show ?thesis
    using step updateSpawnRequest_cost [of s] updateSpawnRequest_entities(1) [of s]
      updateSpawnRequest_accepted [of s]
    by simp
qed

lemma acceptedRequests_AI:
  "map fst (filter (\<lambda>q. \<not> snd q) (acceptedRequests masters tmpCost reqs)) =
     filter (\<lambda>u. masters u \<noteq> None) (map fst (filter (\<lambda>q. \<not> snd q) reqs))"
  by (induction masters tmpCost reqs rule: acceptedRequests.induct)
     (simp_all split: option.splits)

lemma beforeEntityState_keeps [simp]:
  "config (beforeEntityState s) = config s"
  "delegator (beforeEntityState s) = delegator s"
  "unitMasterCache (beforeEntityState s) = unitMasterCache s"
  "aiWaveCache (beforeEntityState s) = aiWaveCache s"
  "passedFrameCount (beforeEntityState s) = passedFrameCount s"
  "player_unitIds (beforeEntityState s) = player_unitIds s"
  "spawnRequestedUnitUnitIds (beforeEntityState s) = []"
  by (simp_all add: beforeEntityState_def)

lemma beforeEntityState_afterSpawn:
  "beforeEntityState s = updateEntityParameter (afterSpawn s)"
  by (simp add: beforeEntityState_def afterSpawn_def)

lemma afterSpawn_entities:
  "unitEntities (afterSpawn s) = unitEntities s @ [nextEntityId s ..< nextEntityId (afterSpawn s)]"
  "nextEntityId s \<le> nextEntityId (afterSpawn s)"
  "r < nextEntityId s \<Longrightarrow> heap (afterSpawn s) r = heap s r"
  "nextEntityId s \<le> r \<Longrightarrow> r < nextEntityId (afterSpawn s) \<Longrightarrow>
     state (heap (afterSpawn s) r) = IDLE \<and> engagedEntity (heap (afterSpawn s) r) = None \<and>
     id_e (heap (afterSpawn s) r) = r"
  using updateSpawnRequest_entities [where s = "updateAISpawn
       (updateAvailableCost s (availableCost s + costRecoveryPerFrame (config s)))"]
  by (simp_all add: afterSpawn_def)

lemma beforeEntityState_entities:
  "unitEntities (beforeEntityState s) =
     unitEntities s @ [nextEntityId s ..< nextEntityId (beforeEntityState s)]"
  "nextEntityId s \<le> nextEntityId (beforeEntityState s)"
  "nextEntityId s \<le> r \<Longrightarrow> r < nextEntityId (beforeEntityState s) \<Longrightarrow>
     state (heap (beforeEntityState s) r) = IDLE"
  using afterSpawn_entities [where s = s]
  by (simp_all add: beforeEntityState_afterSpawn)

lemma update_spawned:
  assumes "\<forall>r \<in> set (unitEntities s). r < nextEntityId s"
  shows "filter (\<lambda>r. nextEntityId s \<le> r) (unitEntities (update s)) =
           [nextEntityId s ..< nextEntityId (update s)]"
proof -
  let ?b = "beforeEntityState s"
  let ?alive = "\<lambda>u. state (heap (updateEntityState ?b) u) \<noteq> DEAD"
  have new: "?alive r" if "r \<in> set [nextEntityId s ..< nextEntityId ?b]" for r
  proof -
    have "state (heap ?b r) = IDLE" using that by (simp add: beforeEntityState_entities(3))
    then show ?thesis
      using updateEntityState_from_idle [of ?b r] by (auto simp: ladderDone_def)
  qed
  have "filter (\<lambda>r. nextEntityId s \<le> r) (unitEntities (update s)) =
      filter (\<lambda>r. nextEntityId s \<le> r) (filter ?alive (unitEntities s)) @
      filter (\<lambda>r. nextEntityId s \<le> r) (filter ?alive [nextEntityId s ..< nextEntityId ?b])"
    using beforeEntityState_entities(1) [of s] by (simp add: update_unitEntities)
  moreover have "filter (\<lambda>r. nextEntityId s \<le> r) (filter ?alive (unitEntities s)) = []"
    using assms by (auto simp: filter_empty_conv)
  moreover have "filter ?alive [nextEntityId s ..< nextEntityId ?b] = [nextEntityId s ..< nextEntityId ?b]"
    using new by (simp add: filter_id_conv)
  moreover have "filter (\<lambda>r. nextEntityId s \<le> r) [nextEntityId s ..< nextEntityId ?b] =
      [nextEntityId s ..< nextEntityId ?b]"
    by (simp add: filter_id_conv)
  ultimately show ?thesis by (simp add: update_nextEntityId)
qed

lemma kindOf_update: "kindOf (update s) r = kindOf (afterSpawn s) r"
  by (simp add: kindOf_def beforeEntityState_afterSpawn)

lemma afterSpawn_accepted:
  "map (kindOf (afterSpawn s)) [nextEntityId s ..< nextEntityId (afterSpawn s)] =
     acceptedRequests (unitMasterCache s)
       (min (availableCost s + costRecoveryPerFrame (config s)) (maxAvailableCost (config s)))
       (spawnRequestedUnitUnitIds s @ map (\<lambda>u. (u, False)) (currentWave s))"
proof -
  let ?s0 = "updateAvailableCost s (availableCost s + costRecoveryPerFrame (config s))"
  have "currentWave ?s0 = currentWave s" by (simp add: currentWave_def)
  then show ?thesis
    using updateSpawnRequest_accepted [of "updateAISpawn ?s0"]
    by (simp add: afterSpawn_def updateAISpawn_eq updateAvailableCost_cost)
qed

lemma spawnedAI_eq:
  assumes "\<forall>r \<in> set (unitEntities s). r < nextEntityId s"
  shows "spawnedAI s =
     filter (\<lambda>u. unitMasterCache s u \<noteq> None)
       (map fst (filter (\<lambda>q. \<not> snd q) (spawnRequestedUnitUnitIds s)) @ currentWave s)"
proof -
  have "spawnedAI s =
      map (\<lambda>r. fst (kindOf (update s) r))
        (filter (\<lambda>r. \<not> snd (kindOf (update s) r))
           (filter (\<lambda>r. nextEntityId s \<le> r) (unitEntities (update s))))"
    by (simp add: spawnedAI_def kindOf_def conj_commute)
  also have "\<dots> = map fst (filter (\<lambda>q. \<not> snd q)
      (map (kindOf (afterSpawn s)) [nextEntityId s ..< nextEntityId (afterSpawn s)]))"
    using update_spawned [OF assms]
    by (simp add: filter_map comp_def kindOf_update beforeEntityState_afterSpawn update_nextEntityId)
  also have "\<dots> = filter (\<lambda>u. unitMasterCache s u \<noteq> None)
       (map fst (filter (\<lambda>q. \<not> snd q) (spawnRequestedUnitUnitIds s)) @ currentWave s)"
    by (simp add: afterSpawn_accepted acceptedRequests_AI comp_def filter_map)
  finally show ?thesis .
qed

lemma allocated_iff: "allocated s \<longleftrightarrow> (\<forall>r \<in> set (unitEntities s). r < nextEntityId s)"
  by (simp add: allocated_def list_all_iff)

lemma init_keeps [simp]:
  "availableCost (init s p) = availableCost s"
  "nextEntityId (init s p) = nextEntityId s"
  "unitEntities (init s p) = unitEntities s"
  "heap (init s p) = heap s"
  "passedFrameCount (init s p) = passedFrameCount s"
  "spawnRequestedUnitUnitIds (init s p) = spawnRequestedUnitUnitIds s"
  "notifications (init s p) = notifications s"
  "delegator (init s p) = Some (delegator_p p)"
  "config (init s p) = (case config_p p of Some c \<Rightarrow> c | None \<Rightarrow> config s)"
  by (simp_all add: init_def)

lemma perform_grows:
  "nextEntityId s \<le> nextEntityId (perform s c)"
  "r \<in> set (unitEntities (perform s c)) \<Longrightarrow>
     r \<in> set (unitEntities s) \<or> (nextEntityId s \<le> r \<and> r < nextEntityId (perform s c))"
proof -
  show "nextEntityId s \<le> nextEntityId (perform s c)"
    using beforeEntityState_entities(2) [of s] by (cases c) (simp_all add: update_nextEntityId)
  show "r \<in> set (unitEntities s) \<or> (nextEntityId s \<le> r \<and> r < nextEntityId (perform s c))"
    if "r \<in> set (unitEntities (perform s c))"
  proof (cases c)
    case Update
    then have "r \<in> set (unitEntities (beforeEntityState s))"
      using that by (simp add: update_unitEntities)
    then show ?thesis
      using Update beforeEntityState_entities(1) [of s] by (auto simp: update_nextEntityId)
  qed (use that in simp_all)
qed

lemma run_grows:
  "nextEntityId s \<le> nextEntityId (run s cs)"
  "r \<in> set (unitEntities (run s cs)) \<Longrightarrow>
     r \<in> set (unitEntities s) \<or> (nextEntityId s \<le> r \<and> r < nextEntityId (run s cs))"
proof -
  have "nextEntityId s \<le> nextEntityId (run s cs) \<and>
    (r \<in> set (unitEntities (run s cs)) \<longrightarrow>
       r \<in> set (unitEntities s) \<or> (nextEntityId s \<le> r \<and> r < nextEntityId (run s cs)))"
  proof (induction cs arbitrary: s)
    case Nil
    show ?case by (simp add: run_def)
  next
    case (Cons c cs)
    have eq: "run s (c # cs) = run (perform s c) cs" by (simp add: run_def)
    show ?case
      unfolding eq
      using Cons.IH [of "perform s c"] perform_grows(1) [of s c] perform_grows(2) [of r s c]
      by auto
  qed
  then show "nextEntityId s \<le> nextEntityId (run s cs)"
    "r \<in> set (unitEntities (run s cs)) \<Longrightarrow>
     r \<in> set (unitEntities s) \<or> (nextEntityId s \<le> r \<and> r < nextEntityId (run s cs))"
    by simp_all
qed

lemma run_allocated: "allocated s \<Longrightarrow> allocated (run s cs)"
  using run_grows [where s = s and cs = cs] by (fastforce simp: allocated_iff)

lemma new_BattleLogic_allocated: "allocated (new_BattleLogic c)"
  by (simp add: allocated_def new_BattleLogic_def)

text \<open>
  C7: after a frame no entity of the live collection is DEAD. An entity that was in the
  live collection during the frame and is not in it after the frame is DEAD, and no
  later sequence of calls brings it back. (The hypothesis that every live reference has
  been allocated holds in every state that calls reach from a new engine, see
  \<open>run_allocated\<close> and \<open>new_BattleLogic_allocated\<close>.)
\<close>

theorem dead_is_terminal:
  assumes "allocated s"
  shows "list_all (\<lambda>r. state (heap (update s) r) \<noteq> DEAD) (unitEntities (update s)) \<and>
         (r \<in> set (unitEntities (beforeEntityState s)) \<and> r \<notin> set (unitEntities (update s)) \<longrightarrow>
            state (heap (update s) r) = DEAD \<and> r \<notin> set (unitEntities (run (update s) cs)))"
proof -
  have alive: "list_all (\<lambda>r. state (heap (update s) r) \<noteq> DEAD) (unitEntities (update s))"
    by (simp add: list_all_iff update_unitEntities)
  have gone: "state (heap (update s) r) = DEAD \<and> r \<notin> set (unitEntities (run (update s) cs))"
    if r: "r \<in> set (unitEntities (beforeEntityState s))" "r \<notin> set (unitEntities (update s))"
  proof -
    have dead: "state (heap (update s) r) = DEAD"
      using r by (simp add: update_unitEntities)
    have "r < nextEntityId (beforeEntityState s)"
      using r(1) assms beforeEntityState_entities(1,2) [of s] by (auto simp: allocated_iff)
    then have "r < nextEntityId (update s)" by (simp add: update_nextEntityId)
    then have "r \<notin> set (unitEntities (run (update s) cs))"
      using run_grows(2) [where s = "update s" and cs = cs and r = r] r(2) by auto
    then show ?thesis using dead by simp
  qed
  show ?thesis using alive gone by blast
qed

text \<open>
  C8: the AI spawn step of a frame appends to the pending queue, in schedule order, one
  AI request for every unit id that the wave schedule lists under the current frame
  counter, and nothing when the schedule has no entry for it. The AI entities that the
  frame creates are, in order, those of the pending AI requests and of the listed unit
  ids whose unit master exists: the available cost plays no part. The frame counter then
  advances by one.
\<close>

theorem ai_wave_spawning:
  assumes "allocated s"
  shows "spawnRequestedUnitUnitIds (updateAISpawn s) =
           spawnRequestedUnitUnitIds s @ map (\<lambda>u. (u, False)) (currentWave s) \<and>
         spawnedAI s =
           filter (\<lambda>u. unitMasterCache s u \<noteq> None)
             (map fst (filter (\<lambda>q. \<not> snd q) (spawnRequestedUnitUnitIds s)) @ currentWave s) \<and>
         (aiWaveCache s (passedFrameCount s) = None \<longrightarrow> updateAISpawn s = s) \<and>
         passedFrameCount (update s) = Suc (passedFrameCount s)"
proof -
  have "\<forall>r \<in> set (unitEntities s). r < nextEntityId s"
    using assms by (simp add: allocated_iff)
  then have "spawnedAI s =
           filter (\<lambda>u. unitMasterCache s u \<noteq> None)
             (map fst (filter (\<lambda>q. \<not> snd q) (spawnRequestedUnitUnitIds s)) @ currentWave s)"
    by (rule spawnedAI_eq)
  moreover have "aiWaveCache s (passedFrameCount s) = None \<longrightarrow> updateAISpawn s = s"
    by (simp add: updateAISpawn_def)
  ultimately show ?thesis
    by (simp add: updateAISpawn_eq)
qed

lemma currentWave_updateAvailableCost [simp]:
  "currentWave (updateAvailableCost s n) = currentWave s"
  by (simp add: currentWave_def)

lemma quiet_frame:
  assumes "unitEntities s = []" and "spawnRequestedUnitUnitIds s = []" and "currentWave s = []"
  shows "unitEntities (update s) = []" and "nextEntityId (update s) = nextEntityId s"
    and "availableCost (update s) =
           min (availableCost s + costRecoveryPerFrame (config s)) (maxAvailableCost (config s))"
proof -
  have b: "beforeEntityState s =
      updateAvailableCost s (availableCost s + costRecoveryPerFrame (config s))"
    using assms
    by (simp add: beforeEntityState_def updateAISpawn_eq updateSpawnRequest_def
        updateEntityParameter_def)
  show "unitEntities (update s) = []"
    using assms by (simp add: update_unitEntities b)
  show "nextEntityId (update s) = nextEntityId s"
    by (simp add: update_nextEntityId b)
  have "availableCost (update s) = availableCost (updateEntityState (beforeEntityState s))"
    by (simp add: update_def Let_def)
  then show "availableCost (update s) =
           min (availableCost s + costRecoveryPerFrame (config s)) (maxAvailableCost (config s))"
    by (simp add: b updateAvailableCost_cost)
qed

lemma started_fields:
  "unitEntities started = []" "spawnRequestedUnitUnitIds started = []"
  "nextEntityId started = 0" "passedFrameCount started = 0"
  "aiWaveCache started = [3 \<mapsto> [7]]" "unitMasterCache started = [7 \<mapsto> scenarioMaster]"
  by (simp_all add: started_def init_def new_BattleLogic_def scenarioD_def scenarioMaster_def)

lemma scenarioD_frames:
  "unitEntities (update started) = []"
  "unitEntities (update (update started)) = []"
  "unitEntities (update (update (update started))) = []"
  "nextEntityId (update (update (update started))) = 0"
  "nextEntityId (update (update started)) = 0"
  "availableCost (update (update started)) = 20"
proof -
  have 0: "currentWave started = []" by (simp add: currentWave_def started_fields)
  have 1: "currentWave (update started) = []" by (simp add: currentWave_def started_fields)
  have 2: "currentWave (update (update started)) = []" by (simp add: currentWave_def started_fields)
  show a: "unitEntities (update started) = []"
    using 0 by (simp add: quiet_frame started_fields)
  have an: "nextEntityId (update started) = 0"
    using 0 quiet_frame(2) [of started] by (simp add: started_fields)
  show b: "unitEntities (update (update started)) = []"
    using 1 a by (simp add: quiet_frame)
  show bn: "nextEntityId (update (update started)) = 0"
    using 1 a an quiet_frame(2) [of "update started"] by simp
  have "availableCost (update started) = 10"
    using 0 quiet_frame(3) [of started]
    by (simp add: started_fields) (simp add: started_def new_BattleLogic_def scenarioConfig_def scenarioD_def)
  then show "availableCost (update (update started)) = 20"
    using 1 a quiet_frame(3) [of "update started"]
    by simp (simp add: started_def new_BattleLogic_def scenarioConfig_def scenarioD_def)
  show "unitEntities (update (update (update started))) = []"
    using 2 b by (simp add: quiet_frame)
  show "nextEntityId (update (update (update started))) = 0"
    using 2 b bn quiet_frame(2) [of "update (update started)"] by simp
qed

text \<open>
  Scenario D: with the schedule of one unit of type 7 at frame 3, the frames 0 to 2 create
  no AI entity and the frame 3 creates one, of type 7.
\<close>

theorem ai_wave_spawning_witness:
  "allocated (run (new_BattleLogic scenarioConfig) [Init scenarioD, Update, Update, Update]) \<and>
   passedFrameCount (run (new_BattleLogic scenarioConfig) [Init scenarioD, Update, Update, Update]) = 3 \<and>
   spawnedAI (run (new_BattleLogic scenarioConfig) [Init scenarioD, Update, Update, Update]) = [7] \<and>
   spawnedAI (run (new_BattleLogic scenarioConfig) [Init scenarioD, Update, Update]) = [] \<and>
   spawnedAI (run (new_BattleLogic scenarioConfig) [Init scenarioD, Update]) = [] \<and>
   spawnedAI (run (new_BattleLogic scenarioConfig) [Init scenarioD]) = []"
  using ai_wave_spawning [of "update (update (update started))"]
    ai_wave_spawning [of "update (update started)"]
    ai_wave_spawning [of "update started"]
    ai_wave_spawning [of "started"]
  by (simp add: run_def started_def [symmetric] allocated_def scenarioD_frames started_fields
      currentWave_def)

lemma pending_fields:
  "unitMasterCache pending = [7 \<mapsto> scenarioMaster]" "availableCost pending = 20"
  "spawnRequestedUnitUnitIds pending = [(7, True)]" "unitEntities pending = []"
  "nextEntityId pending = 0" "config pending = scenarioConfig"
  by (simp_all add: pending_def scenarioD_frames started_fields)
     (simp_all add: requestSpawn_def started_def new_BattleLogic_def scenarioD_def)

text \<open>
  With an available cost of 20 and a unit cost of 30 the request is dropped and nothing
  changes; with a counter of 50 the cost is deducted once and one entity is created.
\<close>

theorem spawn_atomicity_witness:
  "availableCost pending = 20 \<and>
   spawnStep (20, pending) (7, True) = (20, pending) \<and>
   unitEntities (updateSpawnRequest pending) = [] \<and>
   availableCost (updateSpawnRequest pending) = 20 \<and>
   spawnRequestedUnitUnitIds (updateSpawnRequest pending) = [] \<and>
   fst (spawnStep (50, pending) (7, True)) = 20 \<and>
   unitEntities (snd (spawnStep (50, pending) (7, True))) = [0] \<and>
   freshlySpawned (snd (spawnStep (50, pending) (7, True))) 0"
  using spawn_atomicity [where s = pending and uid = 7 and tmpCost = 20]
    spawn_atomicity [where s = pending and uid = 7 and tmpCost = 50]
  by (simp add: pending_fields scenarioMaster_def scenarioConfig_def playerCost_def)

lemmas state_defs =
  updateEntityState_def knockBackPass_def engagedPass_def idlePass_def knockBackStep_def
  engagedStep_def idleStep_def updateUnitKnockBackState_def updateUnitEngagedState_def
  updateUnitIdleState_def stateChangedStep_def

lemma knockedBack_frame:
  "unitEntities (beforeEntityState (knockedBack h)) = [0, Suc 0]"
  "state (heap (updateEntityState (beforeEntityState (knockedBack 0))) 0) = DEAD"
  "state (heap (updateEntityState (beforeEntityState (knockedBack 0))) (Suc 0)) = IDLE"
  by (simp_all add: engine_defs state_defs knockedBack_def scenario_defs)

lemma knockedBack_allocated: "allocated (knockedBack h)"
  by (simp add: allocated_def knockedBack_def duel_def)

text \<open>
  The unit that dies in a frame leaves the live collection and is not in it two frames and
  one spawn later.
\<close>

theorem dead_is_terminal_witness:
  "allocated (knockedBack 0) \<and>
   0 \<in> set (unitEntities (beforeEntityState (knockedBack 0))) \<and>
   unitEntities (update (knockedBack 0)) = [1] \<and>
   state (heap (update (knockedBack 0)) 1) = IDLE \<and>
   state (heap (update (knockedBack 0)) 0) = DEAD \<and>
   0 \<notin> set (unitEntities (run (update (knockedBack 0)) [RequestSpawn 7 True, Update, Update]))"
  using dead_is_terminal [of "knockedBack 0" 0 "[RequestSpawn 7 True, Update, Update]"]
  by (simp add: update_unitEntities knockedBack_frame knockedBack_allocated)

lemma foldl_spawnStep_nonneg: "0 \<le> fst ts \<Longrightarrow> 0 \<le> fst (foldl spawnStep ts reqs)"
proof (induction reqs arbitrary: ts)
  case Nil
  then show ?case by simp
next
  case (Cons req reqs)
  have "0 \<le> fst (spawnStep ts req)"
    using Cons.prems by (simp add: spawnStep_def Let_def split: option.splits)
  then show ?case using Cons.IH [of "spawnStep ts req"] by simp
qed

lemma updateAvailableCost_costInv:
  assumes "configOK (config s)" and "costsOK (notifications s)" and "0 \<le> n"
  shows "costInv (updateAvailableCost s n)"
    and "availableCost (updateAvailableCost s n) \<le> maxAvailableCost (config s)"
  using assms
  by (simp_all add: costInv_def configOK_def costsOK_def updateAvailableCost_cost
      updateAvailableCost_costLog split: option.splits)

lemma updateSpawnRequest_costInv:
  assumes "costInv s" and "availableCost s \<le> maxAvailableCost (config s)"
  shows "costInv (updateSpawnRequest s)"
    and "availableCost (updateSpawnRequest s) \<le> maxAvailableCost (config s)"
proof -
  let ?t = "foldl spawnStep (availableCost s, s) (spawnRequestedUnitUnitIds s)"
  have rel: "spawn_rel s (snd ?t)"
    using foldl_spawnStep_rel [of "(availableCost s, s)" "spawnRequestedUnitUnitIds s"] by simp
  have nn: "0 \<le> fst ?t"
    using assms(1) by (intro foldl_spawnStep_nonneg) (simp add: costInv_def)
  have c: "configOK (config (snd ?t))" "costsOK (notifications (snd ?t))"
    using rel assms(1) by (simp_all add: spawn_rel_def costInv_def costsOK_def)
  have eq: "updateSpawnRequest s =
      (if spawnRequestedUnitUnitIds s = [] then s
       else (updateAvailableCost (snd ?t) (fst ?t))\<lparr> spawnRequestedUnitUnitIds := [] \<rparr>)"
    by (simp add: updateSpawnRequest_def Let_def)
  have cfg: "config (snd ?t) = config s" using rel by (simp add: spawn_rel_def)
  show "costInv (updateSpawnRequest s)"
    using assms(1) updateAvailableCost_costInv(1) [OF c nn]
    by (simp add: eq costInv_def)
  show "availableCost (updateSpawnRequest s) \<le> maxAvailableCost (config s)"
    using assms(2) updateAvailableCost_costInv(2) [OF c nn]
    by (simp add: eq cfg)
qed

lemma update_cost:
  "availableCost (update s) = availableCost (afterSpawn s)"
  "costLog (notifications (update s)) = costLog (notifications (afterSpawn s))"
  by (simp_all add: update_def Let_def beforeEntityState_afterSpawn)

lemma afterSpawn_costInv:
  assumes "costInv s"
  shows "costInv (afterSpawn s)"
    and "availableCost (afterSpawn s) \<le> maxAvailableCost (config s)"
proof -
  let ?s0 = "updateAvailableCost s (availableCost s + costRecoveryPerFrame (config s))"
  have n: "0 \<le> availableCost s + costRecoveryPerFrame (config s)"
    using assms by (simp add: costInv_def configOK_def)
  have c: "configOK (config s)" "costsOK (notifications s)"
    using assms by (simp_all add: costInv_def)
  have "costInv ?s0" "availableCost ?s0 \<le> maxAvailableCost (config s)"
    using updateAvailableCost_costInv [OF c n] by simp_all
  then have 1: "costInv (updateAISpawn ?s0)"
    "availableCost (updateAISpawn ?s0) \<le> maxAvailableCost (config (updateAISpawn ?s0))"
    by (simp_all add: costInv_def)
  show "costInv (afterSpawn s)"
    unfolding afterSpawn_def using 1 by (rule updateSpawnRequest_costInv)
  show "availableCost (afterSpawn s) \<le> maxAvailableCost (config s)"
    unfolding afterSpawn_def using updateSpawnRequest_costInv(2) [OF 1] by simp
qed

lemma update_costInv:
  assumes "costInv s"
  shows "costInv (update s)" and "availableCost (update s) \<le> maxAvailableCost (config (update s))"
proof -
  have "config (afterSpawn s) = config s" by (simp add: afterSpawn_def)
  then show "costInv (update s)"
    using afterSpawn_costInv(1) [OF assms] by (simp add: costInv_def update_cost costsOK_def)
  show "availableCost (update s) \<le> maxAvailableCost (config (update s))"
    using afterSpawn_costInv(2) [OF assms] by (simp add: update_cost)
qed

lemma perform_costInv: "costInv s \<Longrightarrow> callOK c \<Longrightarrow> costInv (perform s c)"
  by (cases c) (simp_all add: update_costInv, simp_all add: costInv_def split: option.splits)

lemma run_costInv: "costInv s \<Longrightarrow> list_all callOK cs \<Longrightarrow> costInv (run s cs)"
  unfolding run_def
  by (induction cs arbitrary: s) (simp_all add: perform_costInv)

lemma new_BattleLogic_costInv: "configOK c \<Longrightarrow> costInv (new_BattleLogic c)"
  by (simp add: costInv_def new_BattleLogic_def costsOK_def)

text \<open>
  C3, as amended: when the recovery rate and the cost cap of every configuration in use
  (the default one and those passed to init) are not negative, then after any sequence
  of init, requestSpawn and update calls the available cost is not negative and every
  cost notification so far has reported a cost between zero and the cap; after a further
  update the available cost is between zero and the cap of the configuration. (The costs
  of the unit masters play no part.)
\<close>

theorem cost_clamp:
  assumes "configOK c0" and "list_all callOK cs"
  shows "0 \<le> availableCost (run (new_BattleLogic c0) cs) \<and>
         costsOK (notifications (run (new_BattleLogic c0) cs)) \<and>
         0 \<le> availableCost (update (run (new_BattleLogic c0) cs)) \<and>
         availableCost (update (run (new_BattleLogic c0) cs)) \<le>
           maxAvailableCost (config (update (run (new_BattleLogic c0) cs)))"
proof -
  have inv: "costInv (run (new_BattleLogic c0) cs)"
    using assms by (simp add: run_costInv new_BattleLogic_costInv)
  then have "costInv (update (run (new_BattleLogic c0) cs))"
    and "availableCost (update (run (new_BattleLogic c0) cs)) \<le>
           maxAvailableCost (config (update (run (new_BattleLogic c0) cs)))"
    by (rule update_costInv)+
  then show ?thesis using inv by (simp add: costInv_def)
qed

lemma started_config: "config started = scenarioConfig"
  by (simp add: started_def new_BattleLogic_def scenarioD_def)

lemma started_run: "run (new_BattleLogic scenarioConfig) [Init scenarioD, Update] = update started"
  by (simp add: run_def started_def)

text \<open>
  Two frames of cost recovery at 10 per frame under a cap of 100.
\<close>

theorem cost_clamp_witness:
  "configOK scenarioConfig \<and> list_all callOK [Init scenarioD, Update] \<and>
   0 \<le> availableCost (run (new_BattleLogic scenarioConfig) [Init scenarioD, Update]) \<and>
   costsOK (notifications (run (new_BattleLogic scenarioConfig) [Init scenarioD, Update])) \<and>
   availableCost (update (run (new_BattleLogic scenarioConfig) [Init scenarioD, Update])) = 20 \<and>
   maxAvailableCost (config (update (run (new_BattleLogic scenarioConfig) [Init scenarioD, Update]))) = 100"
  using cost_clamp [of scenarioConfig "[Init scenarioD, Update]"]
  unfolding started_run
  by (simp add: scenarioD_frames started_config configOK_def scenarioConfig_def scenarioD_def)

lemma capped_fields:
  "unitEntities capped = []" "spawnRequestedUnitUnitIds capped = []" "currentWave capped = []"
  "availableCost capped = 0" "costRecoveryPerFrame (config capped) = 0"
  "maxAvailableCost (config capped) = - 1"
  by (simp_all add: capped_def init_def new_BattleLogic_def negativeCap_def currentWave_def)

lemma capped_run:
  "run (new_BattleLogic scenarioConfig) [Init negativeCap] = capped"
  "run (new_BattleLogic scenarioConfig) [Init negativeCap, Update] = update capped"
  by (simp_all add: run_def capped_def)

text \<open>
  C3 as stated fails: with a recovery rate of 0 and unit costs of 30, but a cost cap of -1,
  the first frame leaves an available cost of -1.
\<close>

theorem cost_clamp_counterexample:
  "0 \<le> costRecoveryPerFrame (config (run (new_BattleLogic scenarioConfig) [Init negativeCap])) \<and>
   0 \<le> cost scenarioMaster \<and>
   availableCost (run (new_BattleLogic scenarioConfig) [Init negativeCap, Update]) = - 1"
  using quiet_frame(3) [of capped]
  unfolding capped_run
  by (simp add: capped_fields scenarioMaster_def)

lemma foldl_elsewhere:
  assumes "\<And>s u. r \<noteq> u \<Longrightarrow> heap (f s u) r = heap s r" and "r \<notin> set xs"
  shows "heap (foldl f s xs) r = heap s r"
  using assms(2)
proof (induction xs arbitrary: s)
  case Nil
  show ?case by simp
next
  case (Cons x xs)
  then show ?case using assms(1) [of x s] by auto
qed

lemma foldl_at:
  assumes "\<And>s u. r \<noteq> u \<Longrightarrow> heap (f s u) r = heap s r" and "distinct (pre @ r # post)"
  shows "heap (foldl f s (pre @ r # post)) r = heap (f (foldl f s pre) r) r"
    and "heap (foldl f s pre) r = heap s r"
proof -
  have "r \<notin> set post" "r \<notin> set pre" using assms(2) by auto
  then show "heap (foldl f s (pre @ r # post)) r = heap (f (foldl f s pre) r) r"
    "heap (foldl f s pre) r = heap s r"
    using assms(1) by (simp_all add: foldl_elsewhere)
qed

lemma knockBackStep_local:
  assumes "heap s' r = heap s r" and "unitMasterCache s' = unitMasterCache s"
  shows "heap (knockBackStep s' r) r = heap (knockBackStep s r) r"
  using assms by (simp add: knockBackStep_self cong: option.case_cong)

lemma foldl_knockBackStep_masters [simp]:
  "unitMasterCache (foldl knockBackStep s xs) = unitMasterCache s"
  by (rule foldl_keeps) simp

text \<open>
  C4, as amended: the state transitions are three passes over the live collection, in
  the order KNOCK_BACK, ENGAGED, IDLE, and each pass tests an entity on the state it has
  when the pass reaches it, which is its state when that pass starts, not at the start of
  the state transitions. The entity \<open>r\<close> of a live collection without duplicates is
  given knock back resolution when it is KNOCK_BACK at the start, engaged resolution when
  it is ENGAGED after the first pass, and idle resolution when it is IDLE after the first
  two passes. In particular an entity whose knock back ends with health of at least 1 is
  IDLE after two passes and is given idle resolution (target scan and engagement) in the
  same frame.
\<close>

theorem passes_test_current_state:
  assumes "unitEntities s = pre @ r # post" and "distinct (unitEntities s)"
  shows "heap (updateEntityState s) r = heap (idlePass (engagedPass (knockBackPass s))) r \<and>
         heap (knockBackPass s) r = heap (knockBackStep s r) r \<and>
         heap (engagedPass (knockBackPass s)) r =
           heap (engagedStep (foldl engagedStep (knockBackPass s) pre) r) r \<and>
         heap (foldl engagedStep (knockBackPass s) pre) r = heap (knockBackPass s) r \<and>
         heap (idlePass (engagedPass (knockBackPass s))) r =
           heap (idleStep (foldl idleStep (engagedPass (knockBackPass s)) pre) r) r \<and>
         heap (foldl idleStep (engagedPass (knockBackPass s)) pre) r =
           heap (engagedPass (knockBackPass s)) r \<and>
         (state (heap s r) = KNOCK_BACK \<and> unitMasterCache s (unitId (heap s r)) = Some master \<and>
          knockBackOutcome master (heap s r) = IDLE \<longrightarrow>
            heap (updateEntityState s) r =
              heap (updateUnitIdleState (foldl idleStep (engagedPass (knockBackPass s)) pre) r) r)"
proof -
  have d: "distinct (pre @ r # post)" using assms by simp
  have kb: "heap (knockBackPass s) r = heap (knockBackStep s r) r"
  proof -
    have "heap (knockBackPass s) r = heap (knockBackStep (foldl knockBackStep s pre) r) r"
      unfolding knockBackPass_def assms(1) using knockBackStep_other d by (rule foldl_at(1))
    moreover have "heap (foldl knockBackStep s pre) r = heap s r"
      using knockBackStep_other d by (rule foldl_at(2))
    ultimately show ?thesis
      using knockBackStep_local [of "foldl knockBackStep s pre" r s] by simp
  qed
  have en: "heap (engagedPass (knockBackPass s)) r =
           heap (engagedStep (foldl engagedStep (knockBackPass s) pre) r) r"
    "heap (foldl engagedStep (knockBackPass s) pre) r = heap (knockBackPass s) r"
    unfolding engagedPass_def using foldl_at [of r engagedStep pre post "knockBackPass s"] d
    by (simp_all add: engagedStep_other assms(1))
  have idl: "heap (idlePass (engagedPass (knockBackPass s))) r =
           heap (idleStep (foldl idleStep (engagedPass (knockBackPass s)) pre) r) r"
    "heap (foldl idleStep (engagedPass (knockBackPass s)) pre) r =
           heap (engagedPass (knockBackPass s)) r"
    unfolding idlePass_def
    using foldl_at [of r idleStep pre post "engagedPass (knockBackPass s)"] d
    by (simp_all add: idleStep_other assms(1))
  have same: "heap (updateEntityState s) r =
      heap (updateUnitIdleState (foldl idleStep (engagedPass (knockBackPass s)) pre) r) r"
    if "state (heap s r) = KNOCK_BACK" "unitMasterCache s (unitId (heap s r)) = Some master"
      "knockBackOutcome master (heap s r) = IDLE"
  proof -
    have "state (heap (knockBackPass s) r) = IDLE"
      using that by (simp add: kb knockBackStep_self knockBackOutcome_def split: if_splits)
    then have "state (heap (engagedPass (knockBackPass s)) r) = IDLE"
      by (simp add: engagedPass_untouched)
    then show ?thesis
      by (simp add: updateEntityState_heap idl idleStep_def)
  qed
  show ?thesis
    using kb en idl same by (simp add: updateEntityState_heap)
qed

lemma recovering_start:
  "unitEntities recovering = [0, Suc 0]"
  "state (heap recovering 0) = KNOCK_BACK"
  "unitMasterCache recovering (unitId (heap recovering 0)) = Some scenarioMaster"
  "knockBackOutcome scenarioMaster (heap recovering 0) = IDLE"
  by (simp_all add: recovering_def scenario_defs knockBackOutcome_def)

lemma recovering_frame:
  "state (heap (knockBackPass recovering) 0) = IDLE"
  "engagedEntity (heap (knockBackPass recovering) 0) = None"
  "state (heap (updateEntityState recovering) 0) = ENGAGED"
  "engagedEntity (heap (updateEntityState recovering) 0) = Some (Suc 0)"
  by (simp_all add: state_defs modify_def notify_def Let_def recovering_def scenario_defs)

text \<open>
  A unit whose knock back ends with health 45 is given idle resolution in the same frame.
\<close>

theorem passes_test_current_state_witness:
  "unitEntities recovering = [] @ 0 # [Suc 0] \<and> distinct (unitEntities recovering) \<and>
   state (heap recovering 0) = KNOCK_BACK \<and>
   heap (updateEntityState recovering) 0 =
     heap (updateUnitIdleState (engagedPass (knockBackPass recovering)) 0) 0 \<and>
   state (heap (updateUnitIdleState (engagedPass (knockBackPass recovering)) 0) 0) = ENGAGED"
proof -
  have pre: "unitEntities recovering = [] @ 0 # [Suc 0]" "distinct (unitEntities recovering)"
    by (simp_all add: recovering_start)
  have hyp: "state (heap recovering 0) = KNOCK_BACK \<and>
      unitMasterCache recovering (unitId (heap recovering 0)) = Some scenarioMaster \<and>
      knockBackOutcome scenarioMaster (heap recovering 0) = IDLE"
    by (simp add: recovering_start)
  have "heap (updateEntityState recovering) 0 =
     heap (updateUnitIdleState (foldl idleStep (engagedPass (knockBackPass recovering)) []) 0) 0"
    using passes_test_current_state [OF pre, of scenarioMaster] hyp by blast
  then have h: "heap (updateEntityState recovering) 0 =
     heap (updateUnitIdleState (engagedPass (knockBackPass recovering)) 0) 0"
    by simp
  have "state (heap (updateUnitIdleState (engagedPass (knockBackPass recovering)) 0) 0) = ENGAGED"
    unfolding h [symmetric] by (simp add: recovering_frame)
  then show ?thesis using h pre hyp by simp
qed

text \<open>
  C4 as stated fails: a unit that is KNOCK_BACK when the state transitions start and IDLE
  after the knock back resolution is ENGAGED with the opposing unit after the same state
  transitions.
\<close>

theorem idle_resolution_counterexample:
  "0 \<in> set (unitEntities recovering) \<and>
   state (heap recovering 0) = KNOCK_BACK \<and>
   state (heap (knockBackPass recovering) 0) = IDLE \<and>
   engagedEntity (heap (knockBackPass recovering) 0) = None \<and>
   state (heap (updateEntityState recovering) 0) = ENGAGED \<and>
   engagedEntity (heap (updateEntityState recovering) 0) = Some 1"
  by (simp add: recovering_frame recovering_start)





lemmas frame_defs = update_def updatePostProcess_def engine_defs state_defs


lemma heap_updI:
  "(\<And>r. r \<noteq> u \<Longrightarrow> h' r = h r) \<Longrightarrow> h' u = e \<Longrightarrow> h' = h(u := e)"
  by (auto simp: fun_eq_iff)

lemma heap_sameI:
  "(\<And>r. r \<noteq> u \<Longrightarrow> h' r = h r) \<Longrightarrow> h' u = h u \<Longrightarrow> h' = h"
  by (metis heap_updI fun_upd_triv)

lemma knockBackStep_cases:
  "heap (knockBackStep s u) = heap s \<or>
   (\<exists>st. heap (knockBackStep s u) = (heap s)(u := (heap s u)\<lparr> engagedEntity := None, state := st \<rparr>) \<and>
      (st = DEAD \<longrightarrow> currentHealth (heap s u) < 1) \<and> state (heap s u) \<noteq> DEAD)"
proof (cases "state (heap s u) = KNOCK_BACK")
  case False
  then show ?thesis by (simp add: knockBackStep_def)
next
  case True
  have "heap (knockBackStep s u) =
      (heap s)(u := (heap s u)\<lparr> engagedEntity := None, state := state (heap (knockBackStep s u) u) \<rparr>)"
    using True by (intro heap_updI) (simp_all add: knockBackStep_other knockBackStep_self)
  moreover have "state (heap (knockBackStep s u) u) = DEAD \<longrightarrow> currentHealth (heap s u) < 1"
    using True by (auto simp: knockBackStep_self split: option.splits if_splits)
  ultimately show ?thesis using True by auto
qed

lemma engagedStep_cases:
  "heap (engagedStep s u) = heap s \<or>
   (\<exists>st. heap (engagedStep s u) = (heap s)(u := (heap s u)\<lparr> engagedEntity := None, state := st \<rparr>) \<and>
      st \<noteq> DEAD)"
proof (cases "state (heap s u) = ENGAGED")
  case False
  then show ?thesis by (simp add: engagedStep_def)
next
  case True
  show ?thesis
  proof (cases "healthCrossing (config s) (heap s u) \<or> targetLost s u")
    case False
    then have "heap (engagedStep s u) u = heap s u"
      using True by (simp add: engagedStep_def updateUnitEngagedState_self)
    then have "heap (engagedStep s u) = heap s"
      by (intro heap_sameI [of u]) (simp_all add: engagedStep_other)
    then show ?thesis by simp
  next
    case c: True
    have "heap (engagedStep s u) u = (heap s u)\<lparr> engagedEntity := None,
        state := (if healthCrossing (config s) (heap s u) then KNOCK_BACK else IDLE) \<rparr>"
      using True c by (auto simp: engagedStep_def updateUnitEngagedState_self)
    then have "heap (engagedStep s u) = (heap s)(u := (heap s u)\<lparr> engagedEntity := None,
        state := (if healthCrossing (config s) (heap s u) then KNOCK_BACK else IDLE) \<rparr>)"
      by (intro heap_updI) (simp_all add: engagedStep_other)
    then show ?thesis by (metis AttackableState.distinct(5,11))
  qed
qed

lemma idleStep_cases:
  "heap (idleStep s u) = heap s \<or>
   (\<exists>t \<in> set (unitEntities s).
      heap (idleStep s u) = (heap s)(u := (heap s u)\<lparr> engagedEntity := Some t, state := ENGAGED \<rparr>) \<and>
      isPlayer (heap s t) \<noteq> isPlayer (heap s u) \<and> state (heap s t) \<noteq> DEAD \<and>
      state (heap s u) = IDLE)"
proof (cases "state (heap s u) = IDLE")
  case False
  then show ?thesis by (simp add: idleStep_def)
next
  case True
  let ?s' = "idleScan s u (unitEntities s)"
  have eq: "idleStep s u = ?s'" using True by (simp add: idleStep_def updateUnitIdleState_def)
  from idleScan_self [of s u "unitEntities s"] show ?thesis
  proof
    assume "heap ?s' u = heap s u"
    then have "heap ?s' = heap s" by (intro heap_sameI [of u]) (simp_all add: idleScan_other)
    then show ?thesis by (simp add: eq)
  next
    assume "\<exists>t \<in> set (unitEntities s).
      heap ?s' u = (heap s u)\<lparr> engagedEntity := Some t, state := ENGAGED \<rparr> \<and>
      isPlayer (heap s t) \<noteq> isPlayer (heap s u) \<and>
      (state (heap s t) = IDLE \<or> state (heap s t) = ENGAGED)"
    then obtain t where t: "t \<in> set (unitEntities s)"
      "heap ?s' u = (heap s u)\<lparr> engagedEntity := Some t, state := ENGAGED \<rparr>"
      "isPlayer (heap s t) \<noteq> isPlayer (heap s u)"
      "state (heap s t) = IDLE \<or> state (heap s t) = ENGAGED"
      by blast
    have "heap ?s' = (heap s)(u := (heap s u)\<lparr> engagedEntity := Some t, state := ENGAGED \<rparr>)"
      using t(2) by (intro heap_updI) (simp_all add: idleScan_other)
    moreover have "state (heap s t) \<noteq> DEAD" using t(4) by auto
    ultimately show ?thesis using t(1,3) True unfolding eq by blast
  qed
qed

lemma engagedWithin_clear:
  "engagedWithin L h \<Longrightarrow> engagedWithin L (h(u := (h u)\<lparr> engagedEntity := None, state := st \<rparr>))"
  by (auto simp: engagedWithin_def)

lemma deadWithoutHealth_clear:
  "deadWithoutHealth L h \<Longrightarrow> st = DEAD \<longrightarrow> currentHealth (h u) < 1 \<Longrightarrow>
   deadWithoutHealth L (h(u := (h u)\<lparr> engagedEntity := None, state := st \<rparr>))"
  by (auto simp: deadWithoutHealth_def)

lemma targetHealthy_clear:
  "targetHealthy r h \<Longrightarrow> targetHealthy r (h(u := (h u)\<lparr> engagedEntity := None, state := st \<rparr>))"
  by (auto simp: targetHealthy_def)

lemma engagedWithin_engage:
  "engagedWithin L h \<Longrightarrow> t \<in> set L \<Longrightarrow> isPlayer (h t) \<noteq> isPlayer (h u) \<Longrightarrow>
   engagedWithin L (h(u := (h u)\<lparr> engagedEntity := Some t, state := ENGAGED \<rparr>))"
  by (auto simp: engagedWithin_def)

lemma targetsAlive_engage:
  "targetsAlive L h \<Longrightarrow> state (h t) \<noteq> DEAD \<Longrightarrow>
   targetsAlive L (h(u := (h u)\<lparr> engagedEntity := Some t, state := ENGAGED \<rparr>))"
  by (auto simp: targetsAlive_def)

lemma knockBackStep_inv:
  assumes "engagedWithin L (heap s) \<and> deadWithoutHealth L (heap s)"
  shows "engagedWithin L (heap (knockBackStep s u)) \<and> deadWithoutHealth L (heap (knockBackStep s u))"
  using knockBackStep_cases [of s u] assms
  by (auto simp: engagedWithin_clear deadWithoutHealth_clear)

lemma engagedStep_inv:
  assumes "engagedWithin L (heap s) \<and> deadWithoutHealth L (heap s)"
  shows "engagedWithin L (heap (engagedStep s u)) \<and> deadWithoutHealth L (heap (engagedStep s u))"
  using engagedStep_cases [of s u] assms
  by (auto simp: engagedWithin_clear deadWithoutHealth_clear)

lemma engagedStep_keep:
  assumes "targetHealthy r (heap s)"
  shows "targetHealthy r (heap (engagedStep s u))"
  using engagedStep_cases [of s u] assms by (auto simp: targetHealthy_clear)

lemma engagedStep_visit:
  assumes "engagedWithin L (heap s)" and "r \<in> set L"
  shows "targetHealthy r (heap (engagedStep s r))"
proof (cases "state (heap s r) = ENGAGED")
  case False
  then have "engagedEntity (heap s r) = None"
    using assms by (cases "engagedEntity (heap s r)") (auto simp: engagedWithin_def)
  then show ?thesis using False by (simp add: engagedStep_def targetHealthy_def)
next
  case True
  then have eng: "engagedEntity (heap (engagedStep s r) r) =
      (if healthCrossing (config s) (heap s r) \<or> targetLost s r then None
       else engagedEntity (heap s r))"
    by (simp add: engagedStep_def updateUnitEngagedState_self)
  show ?thesis
    unfolding targetHealthy_def by (auto simp: eng targetLost_def split: if_splits)
qed

lemma idleStep_inv:
  assumes "engagedWithin L (heap s) \<and> targetsAlive L (heap s) \<and> unitEntities s = L"
  shows "engagedWithin L (heap (idleStep s u)) \<and> targetsAlive L (heap (idleStep s u)) \<and>
         unitEntities (idleStep s u) = L"
  using idleStep_cases [of s u] assms
  by (auto simp: engagedWithin_engage targetsAlive_engage)

lemma knockBackPass_inv:
  assumes "engagedWithin L (heap s) \<and> deadWithoutHealth L (heap s)"
  shows "engagedWithin L (heap (knockBackPass s)) \<and> deadWithoutHealth L (heap (knockBackPass s))"
  unfolding knockBackPass_def
  using assms
  by (rule foldl_invariant [where I = "\<lambda>s'::BattleLogic.
        engagedWithin L (heap s') \<and> deadWithoutHealth L (heap s')"])
     (rule knockBackStep_inv)

lemma engagedPass_inv:
  assumes "engagedWithin L (heap s) \<and> deadWithoutHealth L (heap s)"
  shows "engagedWithin L (heap (engagedPass s)) \<and> deadWithoutHealth L (heap (engagedPass s))"
  unfolding engagedPass_def
  using assms
  by (rule foldl_invariant [where I = "\<lambda>s'::BattleLogic.
        engagedWithin L (heap s') \<and> deadWithoutHealth L (heap s')"])
     (rule engagedStep_inv)

lemma engagedPass_healthy:
  assumes "engagedWithin L (heap s) \<and> deadWithoutHealth L (heap s)" and "unitEntities s = L"
    and "r \<in> set L"
  shows "targetHealthy r (heap (engagedPass s))"
  unfolding engagedPass_def
proof (rule foldl_visit [where r = r and I = "\<lambda>s'::BattleLogic.
        engagedWithin L (heap s') \<and> deadWithoutHealth L (heap s')"])
  show "r \<in> set (unitEntities s)" using assms by simp
  show "engagedWithin L (heap s) \<and> deadWithoutHealth L (heap s)" by (rule assms)
next
  fix s' :: BattleLogic and x
  assume a: "engagedWithin L (heap s') \<and> deadWithoutHealth L (heap s')"
  then show "engagedWithin L (heap (engagedStep s' x)) \<and> deadWithoutHealth L (heap (engagedStep s' x))"
    by (rule engagedStep_inv)
  show "targetHealthy r (heap (engagedStep s' r))"
    using a assms(3) by (intro engagedStep_visit [of L]) simp_all
  assume "targetHealthy r (heap s')"
  then show "targetHealthy r (heap (engagedStep s' x))" by (rule engagedStep_keep)
qed

lemma engagedPass_alive:
  assumes "engagedWithin L (heap s) \<and> deadWithoutHealth L (heap s)" and "unitEntities s = L"
  shows "targetsAlive L (heap (engagedPass s))"
proof -
  have inv: "engagedWithin L (heap (engagedPass s))" "deadWithoutHealth L (heap (engagedPass s))"
    using engagedPass_inv [OF assms(1)] by simp_all
  have "state (heap (engagedPass s) t) \<noteq> DEAD"
    if "r \<in> set L" "engagedEntity (heap (engagedPass s) r) = Some t" for r t
  proof -
    have "targetHealthy r (heap (engagedPass s))"
      using assms that(1) by (rule engagedPass_healthy)
    then have "1 \<le> currentHealth (heap (engagedPass s) t)"
      using that(2) by (simp add: targetHealthy_def)
    moreover have "t \<in> set L" using inv(1) that by (auto simp: engagedWithin_def)
    ultimately show ?thesis using inv(2) by (auto simp: deadWithoutHealth_def)
  qed
  then show ?thesis by (auto simp: targetsAlive_def)
qed

lemma idlePass_inv:
  assumes "engagedWithin L (heap s) \<and> targetsAlive L (heap s) \<and> unitEntities s = L"
  shows "engagedWithin L (heap (idlePass s)) \<and> targetsAlive L (heap (idlePass s)) \<and>
         unitEntities (idlePass s) = L"
  unfolding idlePass_def
  using assms
  by (rule foldl_invariant [where I = "\<lambda>s'::BattleLogic.
        engagedWithin L (heap s') \<and> targetsAlive L (heap s') \<and> unitEntities s' = L"])
     (rule idleStep_inv)

lemma updateEntityState_inv:
  assumes "engagedWithin (unitEntities s) (heap s)"
    and "\<forall>r \<in> set (unitEntities s). state (heap s r) \<noteq> DEAD"
  shows "engagedWithin (unitEntities s) (heap (updateEntityState s)) \<and>
         targetsAlive (unitEntities s) (heap (updateEntityState s))"
proof -
  let ?L = "unitEntities s"
  have "engagedWithin ?L (heap s) \<and> deadWithoutHealth ?L (heap s)"
    using assms by (simp add: deadWithoutHealth_def)
  then have 1: "engagedWithin ?L (heap (knockBackPass s)) \<and>
      deadWithoutHealth ?L (heap (knockBackPass s))"
    by (rule knockBackPass_inv)
  have 2: "engagedWithin ?L (heap (engagedPass (knockBackPass s)))"
    using engagedPass_inv [OF 1] by simp
  have 3: "targetsAlive ?L (heap (engagedPass (knockBackPass s)))"
    using 1 by (rule engagedPass_alive) simp
  have "engagedWithin ?L (heap (idlePass (engagedPass (knockBackPass s)))) \<and>
      targetsAlive ?L (heap (idlePass (engagedPass (knockBackPass s)))) \<and>
      unitEntities (idlePass (engagedPass (knockBackPass s))) = ?L"
    by (rule idlePass_inv) (simp add: 2 3)
  then show ?thesis by (simp add: updateEntityState_heap)
qed

lemma engagedWithin_cong:
  assumes "\<And>r. engagedEntity (h' r) = engagedEntity (h r)"
    and "\<And>r. isPlayer (h' r) = isPlayer (h r)" and "\<And>r. state (h' r) = state (h r)"
  shows "engagedWithin L h' = engagedWithin L h"
  by (simp add: engagedWithin_def assms)

lemma afterSpawn_consistent:
  assumes "consistent s"
  shows "engagedWithin (unitEntities (afterSpawn s)) (heap (afterSpawn s))"
    and "\<forall>r \<in> set (unitEntities (afterSpawn s)). state (heap (afterSpawn s) r) \<noteq> DEAD"
proof -
  let ?a = "afterSpawn s"
  have old: "r < nextEntityId s" if "r \<in> set (unitEntities s)" for r
    using assms that by (simp add: consistent_def allocated_iff)
  have new: "state (heap ?a r) = IDLE \<and> engagedEntity (heap ?a r) = None"
    if "r \<in> set [nextEntityId s ..< nextEntityId ?a]" for r
    using that afterSpawn_entities(4) [of s r] by simp
  have same: "heap ?a r = heap s r" if "r \<in> set (unitEntities s)" for r
    using old [OF that] by (simp add: afterSpawn_entities(3))
  have ents: "set (unitEntities ?a) = set (unitEntities s) \<union> set [nextEntityId s ..< nextEntityId ?a]"
    using afterSpawn_entities(1) [of s] by (metis set_append)
  show "\<forall>r \<in> set (unitEntities ?a). state (heap ?a r) \<noteq> DEAD"
    unfolding ents using assms new same by (auto simp: consistent_def)
  have K: "engagedWithin (unitEntities s) (heap s)" using assms by (simp add: consistent_def)
  show "engagedWithin (unitEntities ?a) (heap ?a)"
    unfolding engagedWithin_def ents
  proof (intro ballI allI impI)
    fix r t
    assume r: "r \<in> set (unitEntities s) \<union> set [nextEntityId s ..< nextEntityId ?a]"
      and e: "engagedEntity (heap ?a r) = Some t"
    have rold: "r \<in> set (unitEntities s)" using r e new by auto
    then have e': "engagedEntity (heap s r) = Some t" using e same by simp
    then have t: "t \<in> set (unitEntities s)" "isPlayer (heap s t) \<noteq> isPlayer (heap s r)"
      "state (heap s r) = ENGAGED"
      using K rold by (auto simp: engagedWithin_def)
    then show "t \<in> set (unitEntities s) \<union> set [nextEntityId s ..< nextEntityId ?a] \<and>
      isPlayer (heap ?a t) \<noteq> isPlayer (heap ?a r) \<and> state (heap ?a r) = ENGAGED"
      using rold same by simp
  qed
qed

lemma beforeEntityState_consistent:
  assumes "consistent s"
  shows "engagedWithin (unitEntities (beforeEntityState s)) (heap (beforeEntityState s))"
    and "\<forall>r \<in> set (unitEntities (beforeEntityState s)). state (heap (beforeEntityState s) r) \<noteq> DEAD"
proof -
  have "engagedWithin (unitEntities (afterSpawn s)) (heap (beforeEntityState s)) =
      engagedWithin (unitEntities (afterSpawn s)) (heap (afterSpawn s))"
    by (rule engagedWithin_cong) (simp_all add: beforeEntityState_afterSpawn)
  then show "engagedWithin (unitEntities (beforeEntityState s)) (heap (beforeEntityState s))"
    using afterSpawn_consistent(1) [OF assms] by (simp add: beforeEntityState_afterSpawn)
  show "\<forall>r \<in> set (unitEntities (beforeEntityState s)). state (heap (beforeEntityState s) r) \<noteq> DEAD"
    using afterSpawn_consistent(2) [OF assms] by (simp add: beforeEntityState_afterSpawn)
qed

lemma update_consistent:
  assumes "consistent s"
  shows "consistent (update s)"
proof -
  let ?b = "beforeEntityState s"
  let ?e = "updateEntityState ?b"
  have KE: "engagedWithin (unitEntities ?b) (heap ?e)" "targetsAlive (unitEntities ?b) (heap ?e)"
    using updateEntityState_inv [OF beforeEntityState_consistent [OF assms]] by simp_all
  have al: "allocated (update s)"
  proof -
    have "allocated s" using assms by (simp add: consistent_def)
    then have "allocated (run s [Update])" by (rule run_allocated)
    then show ?thesis by (simp add: run_def)
  qed
  have live: "set (unitEntities (update s)) = {r \<in> set (unitEntities ?b). state (heap ?e r) \<noteq> DEAD}"
    by (simp add: update_unitEntities)
  have "engagedWithin (unitEntities (update s)) (heap (update s))"
    unfolding engagedWithin_def live
  proof (intro ballI allI impI)
    fix r t
    assume r: "r \<in> {r \<in> set (unitEntities ?b). state (heap ?e r) \<noteq> DEAD}"
      and e: "engagedEntity (heap (update s) r) = Some t"
    have e': "engagedEntity (heap ?e r) = Some t" using e by simp
    have "t \<in> set (unitEntities ?b)" "isPlayer (heap ?e t) \<noteq> isPlayer (heap ?e r)"
      "state (heap ?e r) = ENGAGED"
      using KE(1) r e' by (auto simp: engagedWithin_def)
    moreover have "state (heap ?e t) \<noteq> DEAD"
      using KE(2) r e' by (auto simp: targetsAlive_def)
    ultimately show "t \<in> {r \<in> set (unitEntities ?b). state (heap ?e r) \<noteq> DEAD} \<and>
      isPlayer (heap (update s) t) \<noteq> isPlayer (heap (update s) r) \<and>
      state (heap (update s) r) = ENGAGED"
      by simp
  qed
  moreover have "\<forall>r \<in> set (unitEntities (update s)). state (heap (update s) r) \<noteq> DEAD"
    by (simp add: live)
  ultimately show ?thesis using al by (simp add: consistent_def)
qed

lemma perform_consistent: "consistent s \<Longrightarrow> consistent (perform s c)"
  by (cases c) (simp_all add: update_consistent, simp_all add: consistent_def allocated_def)

lemma run_consistent: "consistent s \<Longrightarrow> consistent (run s cs)"
  unfolding run_def
  by (induction cs arbitrary: s) (simp_all add: perform_consistent)

lemma new_BattleLogic_consistent: "consistent (new_BattleLogic c)"
  by (simp add: consistent_def allocated_def engagedWithin_def new_BattleLogic_def)

lemma consistent_engagementOK: "consistent s \<Longrightarrow> engagementOK s"
  by (auto simp: consistent_def engagementOK_def engagedWithin_def list_all_iff
      split: option.splits)

text \<open>
  C9: after every frame of every run of a new engine (any default configuration, any
  sequence of init, requestSpawn and update calls before it), the engaged entity of each
  entity of the live collection, if it has one, is in the live collection and of the
  opposing side.
\<close>

theorem engaged_entity_live_and_opposing:
  "engagementOK (update (run (new_BattleLogic c) cs))"
  by (intro consistent_engagementOK update_consistent run_consistent new_BattleLogic_consistent)

lemma ready_fields:
  "unitEntities ready = []" "nextEntityId ready = 0"
  "spawnRequestedUnitUnitIds ready = [(7, True)]"
  "unitMasterCache ready = [7 \<mapsto> scenarioMaster]"
  "aiWaveCache ready = [3 \<mapsto> [7]]" "passedFrameCount ready = 3"
  "delegator ready = Some permissive" "config ready = scenarioConfig"
  "availableCost ready = 30"
proof -
  have c: "currentWave (update (update started)) = []"
    by (simp add: currentWave_def started_fields)
  have "availableCost (update (update (update started))) = 30"
    using quiet_frame(3) [of "update (update started)"] c
    by (simp add: scenarioD_frames started_config scenarioConfig_def)
  then show "availableCost ready = 30" by (simp add: ready_def)
  show "unitEntities ready = []" "nextEntityId ready = 0"
    "spawnRequestedUnitUnitIds ready = [(7, True)]"
    "unitMasterCache ready = [7 \<mapsto> scenarioMaster]"
    "aiWaveCache ready = [3 \<mapsto> [7]]" "passedFrameCount ready = 3"
    "config ready = scenarioConfig"
    by (simp_all add: ready_def scenarioD_frames started_fields started_config)
       (simp add: requestSpawn_def)
  show "delegator ready = Some permissive"
    by (simp add: ready_def started_def scenarioD_def)
qed

lemma ready_frame:
  "unitEntities (update ready) = [0, Suc 0]"
  "engagedEntity (heap (update ready) 0) = Some (Suc 0)"
  "engagedEntity (heap (update ready) (Suc 0)) = Some 0"
  "isPlayer (heap (update ready) 0)"
  "\<not> isPlayer (heap (update ready) (Suc 0))"
  by (simp_all add: frame_defs spawnStep_def requestSpawnAI_def requestSpawn_def
      new_UnitEntity_def ready_fields scenarioConfig_def permissive_def scenarioMaster_def)

text \<open>
  The player unit and the AI unit that frame 3 of Scenario D creates engage each other.
\<close>

theorem engaged_entity_live_and_opposing_witness:
  "unitEntities (update (run (new_BattleLogic scenarioConfig)
      [Init scenarioD, Update, Update, Update, RequestSpawn 7 True])) = [0, 1] \<and>
   engagedEntity (heap (update (run (new_BattleLogic scenarioConfig)
      [Init scenarioD, Update, Update, Update, RequestSpawn 7 True])) 0) = Some 1 \<and>
   isPlayer (heap (update (run (new_BattleLogic scenarioConfig)
      [Init scenarioD, Update, Update, Update, RequestSpawn 7 True])) 0) \<and>
   \<not> isPlayer (heap (update (run (new_BattleLogic scenarioConfig)
      [Init scenarioD, Update, Update, Update, RequestSpawn 7 True])) 1) \<and>
   engagementOK (update (run (new_BattleLogic scenarioConfig)
      [Init scenarioD, Update, Update, Update, RequestSpawn 7 True]))"
proof -
  have r: "run (new_BattleLogic scenarioConfig)
      [Init scenarioD, Update, Update, Update, RequestSpawn 7 True] = ready"
    by (simp add: run_def ready_def started_def)
  show ?thesis
    using engaged_entity_live_and_opposing [of scenarioConfig
        "[Init scenarioD, Update, Update, Update, RequestSpawn 7 True]"] ready_frame
    unfolding r by simp
qed

text \<open>
  The live collection of an engine that calls reach from a new engine has no duplicates,
  as the statements about the knock back counter and about the three passes assume.
\<close>

lemma update_distinct:
  assumes "allocated s" and "distinct (unitEntities s)"
  shows "distinct (unitEntities (update s))"
proof -
  have "distinct (unitEntities (beforeEntityState s))"
    using assms beforeEntityState_entities(1) [of s] by (auto simp: allocated_iff)
  then show ?thesis by (simp add: update_unitEntities)
qed

lemma perform_distinct:
  assumes "allocated s \<and> distinct (unitEntities s)"
  shows "allocated (perform s c) \<and> distinct (unitEntities (perform s c))"
proof -
  have "allocated (run s [c])" using assms by (simp add: run_allocated)
  then have "allocated (perform s c)" by (simp add: run_def)
  moreover have "distinct (unitEntities (perform s c))"
    using assms by (cases c) (simp_all add: update_distinct)
  ultimately show ?thesis by simp
qed

lemma run_distinct: "distinct (unitEntities (run (new_BattleLogic c) cs))"
proof -
  have "allocated (new_BattleLogic c) \<and> distinct (unitEntities (new_BattleLogic c))"
    by (simp add: new_BattleLogic_allocated) (simp add: new_BattleLogic_def)
  then have "allocated (run (new_BattleLogic c) cs) \<and> distinct (unitEntities (run (new_BattleLogic c) cs))"
    unfolding run_def
    by (rule foldl_invariant [where I = "\<lambda>s'::BattleLogic. allocated s' \<and> distinct (unitEntities s')"])
       (rule perform_distinct)
  then show ?thesis by simp
qed

text \<open>
  What the parameter update of a frame does to the distance and to the health of the
  entities, when the delegate refuses nothing.
\<close>

lemma updateDamage_distance [simp]:
  "distance (heap (updateDamage s u master) r) = distance (heap s r)"
  by (simp add: updateDamage_def Let_def split: option.splits)

lemma updateDistance_distance:
  assumes "walkAllowed s"
  shows "distance (heap (updateDistance s u master) r) =
     (if r = u then
        (if state (heap s u) = KNOCK_BACK then distance (heap s u) - knockBackSpeed master
         else if state (heap s u) = IDLE then distance (heap s u) + speed master
         else distance (heap s u))
      else distance (heap s r))"
  using assms by (simp add: updateDistance_def walkAllowed_def Let_def split: option.splits)

lemma walkAllowed_updateDamage [simp]: "walkAllowed (updateDamage s u master) = walkAllowed s"
  by (simp add: walkAllowed_def)

lemma walkAllowed_parameterStep [simp]: "walkAllowed (parameterStep s u) = walkAllowed s"
  by (simp add: walkAllowed_def)

lemma damageAllowed_parameterStep [simp]: "damageAllowed (parameterStep s u) = damageAllowed s"
  by (simp add: damageAllowed_def)

lemma parameterStep_distance:
  assumes "walkAllowed s"
  shows "distance (heap (parameterStep s x) r) =
           (if x = r then movedDistance s r else distance (heap s r))"
  using assms
  by (auto simp: parameterStep_def updateDistance_distance movedDistance_def split: option.splits)

lemma movedDistance_parameterStep:
  "x \<noteq> r \<Longrightarrow> walkAllowed s \<Longrightarrow> movedDistance (parameterStep s x) r = movedDistance s r"
  by (simp add: movedDistance_def parameterStep_distance split: option.splits)

lemma foldl_parameterStep_distance:
  "distinct xs \<Longrightarrow> walkAllowed s \<Longrightarrow>
   distance (heap (foldl parameterStep s xs) r) =
     (if r \<in> set xs then movedDistance s r else distance (heap s r))"
proof (induction xs arbitrary: s)
  case Nil
  show ?case by simp
next
  case (Cons x xs)
  show ?case
  proof (cases "x = r")
    case True
    then show ?thesis using Cons by (simp add: parameterStep_distance)
  next
    case False
    then have "movedDistance (parameterStep s x) r = movedDistance s r"
      using Cons.prems by (simp add: movedDistance_parameterStep)
    then show ?thesis using False Cons by (simp add: parameterStep_distance)
  qed
qed

lemma updateDistance_health [simp]:
  "currentHealth (heap (updateDistance s u master) r) = currentHealth (heap s r)"
  by (simp add: updateDistance_def Let_def split: option.splits)

lemma updateDamage_health:
  assumes "damageAllowed s"
  shows "currentHealth (heap (updateDamage s u master) t) =
     currentHealth (heap s t) - (if engagedEntity (heap s u) = Some t then power_m master else 0)"
  using assms by (simp add: updateDamage_def damageAllowed_def Let_def split: option.splits)

lemma parameterStep_health:
  assumes "damageAllowed s"
  shows "currentHealth (heap (parameterStep s x) t) = currentHealth (heap s t) - attackOn s t x"
  using assms by (simp add: parameterStep_def attackOn_def updateDamage_health split: option.splits)

lemma attackOn_parameterStep [simp]: "attackOn (parameterStep s x) t y = attackOn s t y"
  by (simp add: attackOn_def split: option.splits)

lemma foldl_parameterStep_health:
  "damageAllowed s \<Longrightarrow>
   currentHealth (heap (foldl parameterStep s xs) t) =
     currentHealth (heap s t) - sum_list (map (attackOn s t) xs)"
proof (induction xs arbitrary: s)
  case Nil
  show ?case by simp
next
  case (Cons x xs)
  have "map (attackOn (parameterStep s x) t) xs = map (attackOn s t) xs" by simp
  then show ?case using Cons by (simp add: parameterStep_health)
qed

lemma afterSpawn_keeps [simp]:
  "delegator (afterSpawn s) = delegator s"
  "unitMasterCache (afterSpawn s) = unitMasterCache s"
  "config (afterSpawn s) = config s"
  by (simp_all add: afterSpawn_def)

lemma afterSpawn_distinct:
  assumes "allocated s" and "distinct (unitEntities s)"
  shows "distinct (unitEntities (afterSpawn s))"
  using assms afterSpawn_entities(1) [of s] by (auto simp: allocated_iff)

lemma update_distance:
  "distance (heap (update s) r) = distance (heap (beforeEntityState s) r)"
  by (simp add: update_def Let_def)

lemma update_walks:
  assumes "allocated s" and "distinct (unitEntities s)" and "r \<in> set (unitEntities s)"
    and "walkAllowed s"
  shows "distance (heap (update s) r) = movedDistance s r"
proof -
  let ?a = "afterSpawn s"
  have r: "r < nextEntityId s" using assms(1,3) by (simp add: allocated_iff)
  have h: "heap ?a r = heap s r" using r by (simp add: afterSpawn_entities(3))
  have m: "movedDistance ?a r = movedDistance s r" by (simp add: movedDistance_def h split: option.splits)
  have w: "walkAllowed ?a" using assms(4) by (simp add: walkAllowed_def)
  have "r \<in> set (unitEntities ?a)" using assms(3) afterSpawn_entities(1) [of s] by simp
  then have "distance (heap (updateEntityParameter ?a) r) = movedDistance ?a r"
    unfolding updateEntityParameter_def
    using afterSpawn_distinct [OF assms(1,2)] w by (simp add: foldl_parameterStep_distance)
  then show ?thesis by (simp add: update_distance beforeEntityState_afterSpawn m)
qed

lemma update_damage:
  assumes "allocated s" and "t < nextEntityId s" and "damageAllowed s"
  shows "currentHealth (heap (update s) t) =
           currentHealth (heap s t) - sum_list (map (attackOn s t) (unitEntities s))"
proof -
  let ?a = "afterSpawn s"
  have d: "damageAllowed ?a" using assms(3) by (simp add: damageAllowed_def)
  have old: "attackOn ?a t x = attackOn s t x" if "x \<in> set (unitEntities s)" for x
  proof -
    have "x < nextEntityId s" using that assms(1) by (simp add: allocated_iff)
    then have "heap ?a x = heap s x" by (simp add: afterSpawn_entities(3))
    then show ?thesis by (simp add: attackOn_def split: option.splits)
  qed
  have new: "attackOn ?a t x = 0" if "x \<in> set [nextEntityId s ..< nextEntityId ?a]" for x
    using that afterSpawn_entities(4) [of s x] by (simp add: attackOn_def split: option.splits)
  have o: "map (attackOn ?a t) (unitEntities s) = map (attackOn s t) (unitEntities s)"
    by (rule map_cong [OF refl]) (rule old)
  have n: "sum_list (map (attackOn ?a t) [nextEntityId s ..< nextEntityId ?a]) = 0"
  proof -
    have e: "map (attackOn ?a t) [nextEntityId s ..< nextEntityId ?a] =
        map (\<lambda>x. 0) [nextEntityId s ..< nextEntityId ?a]"
      by (rule map_cong [OF refl]) (rule new)
    show ?thesis unfolding e by simp
  qed
  have sum: "sum_list (map (attackOn ?a t) (unitEntities ?a)) =
      sum_list (map (attackOn s t) (unitEntities s))"
    unfolding afterSpawn_entities(1) [of s] map_append sum_list_append o n by simp
  have "currentHealth (heap (updateEntityParameter ?a) t) =
      currentHealth (heap ?a t) - sum_list (map (attackOn ?a t) (unitEntities ?a))"
    unfolding updateEntityParameter_def using d by (rule foldl_parameterStep_health)
  then show ?thesis
    using assms(2) by (simp add: beforeEntityState_afterSpawn sum afterSpawn_entities(3))
qed

text \<open>
  The scan of an idle unit engages when the delegate refuses nothing and an entity of the
  other side is IDLE or ENGAGED.
\<close>

lemma idleScan_engages:
  assumes "engageAllowed s"
    and "\<exists>t \<in> set ts. isPlayer (heap s t) \<noteq> isPlayer (heap s u) \<and>
           (state (heap s t) = IDLE \<or> state (heap s t) = ENGAGED)"
  shows "state (heap (idleScan s u ts) u) = ENGAGED \<and> engagedEntity (heap (idleScan s u ts) u) \<noteq> None"
  using assms(2)
proof (induction ts)
  case Nil
  then show ?case by simp
next
  case (Cons t ts)
  obtain d where d: "delegator s = Some d" "\<And>a b. shouldEngageAttackableEntity d a b"
    using assms(1) by (auto simp: engageAllowed_def split: option.splits)
  show ?case
  proof (cases "isPlayer (heap s t) \<noteq> isPlayer (heap s u) \<and>
           (state (heap s t) = IDLE \<or> state (heap s t) = ENGAGED)")
    case True
    then show ?thesis using d by auto
  next
    case False
    then have "\<exists>t \<in> set ts. isPlayer (heap s t) \<noteq> isPlayer (heap s u) \<and>
           (state (heap s t) = IDLE \<or> state (heap s t) = ENGAGED)"
      using Cons.prems by auto
    then have "state (heap (idleScan s u ts) u) = ENGAGED \<and>
        engagedEntity (heap (idleScan s u ts) u) \<noteq> None"
      by (rule Cons.IH)
    then show ?thesis using False by auto
  qed
qed

lemma idleStep_engages:
  assumes "engageAllowed s" and "t \<in> set (unitEntities s)"
    and "isPlayer (heap s t) \<noteq> isPlayer (heap s r)"
    and "state (heap s t) = IDLE \<or> state (heap s t) = ENGAGED"
    and "state (heap s r) = IDLE \<or> engagedNow (heap s r)"
  shows "engagedNow (heap (idleStep s r) r)"
proof (cases "state (heap s r) = IDLE")
  case True
  have "state (heap (idleScan s r (unitEntities s)) r) = ENGAGED \<and>
      engagedEntity (heap (idleScan s r (unitEntities s)) r) \<noteq> None"
    using assms(1) by (rule idleScan_engages) (use assms(2,3,4) in blast)
  then show ?thesis using True by (simp add: idleStep_def updateUnitIdleState_def engagedNow_def)
next
  case False
  then show ?thesis using assms(5) by (simp add: idleStep_def)
qed

lemma engageAllowed_idleStep [simp]: "engageAllowed (idleStep s x) = engageAllowed s"
  by (simp add: engageAllowed_def)

lemma idlePass_engages:
  assumes "engageAllowed s" and "r \<in> set (unitEntities s)" and "t \<in> set (unitEntities s)"
    and "isPlayer (heap s t) \<noteq> isPlayer (heap s r)"
    and "state (heap s t) = IDLE \<or> state (heap s t) = ENGAGED"
    and "state (heap s r) = IDLE"
  shows "engagedNow (heap (idlePass s) r)"
  unfolding idlePass_def
proof (rule foldl_visit [where r = r and I = "\<lambda>s'::BattleLogic.
      engageAllowed s' \<and> t \<in> set (unitEntities s') \<and>
      isPlayer (heap s' t) \<noteq> isPlayer (heap s' r) \<and>
      ladderDone False (heap s' t) \<and>
      (state (heap s' r) = IDLE \<or> engagedNow (heap s' r))"])
  show "r \<in> set (unitEntities s)" by (rule assms)
  show "engageAllowed s \<and> t \<in> set (unitEntities s) \<and>
      isPlayer (heap s t) \<noteq> isPlayer (heap s r) \<and> ladderDone False (heap s t) \<and>
      (state (heap s r) = IDLE \<or> engagedNow (heap s r))"
    using assms by (simp add: ladderDone_def)
next
  fix s' :: BattleLogic and x
  assume a: "engageAllowed s' \<and> t \<in> set (unitEntities s') \<and>
      isPlayer (heap s' t) \<noteq> isPlayer (heap s' r) \<and> ladderDone False (heap s' t) \<and>
      (state (heap s' r) = IDLE \<or> engagedNow (heap s' r))"
  have vis: "engagedNow (heap (idleStep s' r) r)"
    using a by (intro idleStep_engages [of s' t r]) (simp_all add: ladderDone_def)
  show "engagedNow (heap (idleStep s' r) r)" by (rule vis)
  have r': "state (heap (idleStep s' x) r) = IDLE \<or> engagedNow (heap (idleStep s' x) r)"
    using a vis by (cases "x = r") (simp_all add: idleStep_other)
  show "engageAllowed (idleStep s' x) \<and> t \<in> set (unitEntities (idleStep s' x)) \<and>
      isPlayer (heap (idleStep s' x) t) \<noteq> isPlayer (heap (idleStep s' x) r) \<and>
      ladderDone False (heap (idleStep s' x) t) \<and>
      (state (heap (idleStep s' x) r) = IDLE \<or> engagedNow (heap (idleStep s' x) r))"
    using a r' by (simp add: idleStep_ladder)
  assume q: "engagedNow (heap s' r)"
  show "engagedNow (heap (idleStep s' x) r)"
  proof (cases "x = r")
    case True
    then show ?thesis using q by (simp add: idleStep_def engagedNow_def)
  next
    case False
    then show ?thesis using q by (simp add: idleStep_other)
  qed
qed

lemma update_engages:
  assumes "engageAllowed s"
    and "r \<in> set (unitEntities (beforeEntityState s))"
    and "t \<in> set (unitEntities (beforeEntityState s))"
    and "isPlayer (heap (beforeEntityState s) t) \<noteq> isPlayer (heap (beforeEntityState s) r)"
    and "state (heap (engagedPass (knockBackPass (beforeEntityState s))) t) = IDLE \<or>
         state (heap (engagedPass (knockBackPass (beforeEntityState s))) t) = ENGAGED"
    and "state (heap (beforeEntityState s) r) = IDLE"
  shows "engagedNow (heap (update s) r)"
proof -
  let ?b = "beforeEntityState s"
  let ?p = "engagedPass (knockBackPass ?b)"
  have hr: "heap ?p r = heap ?b r"
    using assms(6) by (simp add: engagedPass_untouched knockBackPass_untouched)
  have "engageAllowed ?p" using assms(1) by (simp add: engageAllowed_def)
  then have "engagedNow (heap (idlePass ?p) r)"
    by (rule idlePass_engages [where t = t]) (use assms hr in simp_all)
  then show ?thesis
    by (simp add: engagedNow_def updateEntityState_heap)
qed

lemma beforeEntityState_old:
  assumes "r < nextEntityId s"
  shows "state (heap (beforeEntityState s) r) = state (heap s r)"
    and "isPlayer (heap (beforeEntityState s) r) = isPlayer (heap s r)"
  using assms by (simp_all add: beforeEntityState_afterSpawn afterSpawn_entities(3))

lemma acts_walk:
  assumes "allocated n" and "distinct (unitEntities n)" and "r \<in> set (unitEntities n)"
    and "state (heap n r) = IDLE" and "walkAllowed n"
    and "unitMasterCache n (unitId (heap n r)) = Some master"
  shows "distance (heap (update n) r) = distance (heap n r) + speed master"
  using update_walks [OF assms(1,2,3,5)] assms(4,6) by (simp add: movedDistance_def)

lemma acts_damage:
  assumes "allocated n" and "r \<in> set (unitEntities n)" and "t \<in> set (unitEntities n)"
    and "engagedEntity (heap n r) = Some t" and "damageAllowed n"
    and "unitMasterCache n (unitId (heap n r)) = Some master"
  shows "currentHealth (heap (update n) t) =
           currentHealth (heap n t) - power_m master -
           sum_list (map (attackOn n t) (remove1 r (unitEntities n)))"
proof -
  have lt: "t < nextEntityId n" using assms(1,3) by (simp add: allocated_iff)
  have "currentHealth (heap (update n) t) =
      currentHealth (heap n t) - sum_list (map (attackOn n t) (unitEntities n))"
    using assms(1) lt assms(5) by (rule update_damage)
  moreover have "sum_list (map (attackOn n t) (unitEntities n)) =
      attackOn n t r + sum_list (map (attackOn n t) (remove1 r (unitEntities n)))"
    using assms(2) by (rule sum_list_map_remove1)
  moreover have "attackOn n t r = power_m master"
    using assms(4,6) by (simp add: attackOn_def)
  ultimately show ?thesis by simp
qed

lemma acts_engage:
  assumes "allocated n" and "r \<in> set (unitEntities n)" and "t \<in> set (unitEntities n)"
    and "state (heap n r) = IDLE" and "isPlayer (heap n t) \<noteq> isPlayer (heap n r)"
    and "state (heap (engagedPass (knockBackPass (beforeEntityState n))) t) = IDLE \<or>
         state (heap (engagedPass (knockBackPass (beforeEntityState n))) t) = ENGAGED"
    and "engageAllowed n"
  shows "state (heap (update n) r) = ENGAGED \<and> engagedEntity (heap (update n) r) \<noteq> None"
proof -
  have lt: "r < nextEntityId n" "t < nextEntityId n"
    using assms(1,2,3) by (simp_all add: allocated_iff)
  have live: "r \<in> set (unitEntities (beforeEntityState n))"
    "t \<in> set (unitEntities (beforeEntityState n))"
    using assms(2,3) beforeEntityState_entities(1) [of n] by simp_all
  have "engagedNow (heap (update n) r)"
    using assms(7) live
  proof (rule update_engages)
    show "isPlayer (heap (beforeEntityState n) t) \<noteq> isPlayer (heap (beforeEntityState n) r)"
      using assms(5) lt by (simp add: beforeEntityState_old)
    show "state (heap (beforeEntityState n) r) = IDLE"
      using assms(4) lt by (simp add: beforeEntityState_old)
  qed (rule assms(6))
  then show ?thesis unfolding engagedNow_def .
qed

lemma run_wellformed:
  assumes "allocated s" and "distinct (unitEntities s)"
  shows "allocated (run s cs)" and "distinct (unitEntities (run s cs))"
proof -
  have "allocated s \<and> distinct (unitEntities s)" using assms by simp
  then have "allocated (run s cs) \<and> distinct (unitEntities (run s cs))"
    unfolding run_def
    by (rule foldl_invariant [where I = "\<lambda>s'::BattleLogic. allocated s' \<and> distinct (unitEntities s')"])
       (rule perform_distinct)
  then show "allocated (run s cs)" and "distinct (unitEntities (run s cs))" by simp_all
qed

lemma later_wellformed:
  assumes "allocated s" and "distinct (unitEntities s)"
  shows "allocated (run (update s) cs)" and "distinct (unitEntities (run (update s) cs))"
proof -
  have "run (update s) cs = run s (Update # cs)" by (simp add: run_def)
  then show "allocated (run (update s) cs)" and "distinct (unitEntities (run (update s) cs))"
    using run_wellformed [OF assms, of "Update # cs"] by simp_all
qed

text \<open>
  C10: an entity that is IDLE or ENGAGED when the state transitions of a frame start,
  whatever its health (so also with health below 1, or negative), is not DEAD after the
  frame and stays in the live collection, with the health it had; it is then IDLE or
  ENGAGED again, unless it was ENGAGED and the damage of the frame crossed a knock back
  threshold. On every later frame, that is on the frame that starts from the engine \<open>n\<close>
  reached from the end of this frame by any calls \<open>cs\<close>, the entity acts as long as it is
  in the live collection, whatever its health: if it is IDLE and its master is known, a
  delegate that permits walking lets it walk by its speed; if it is IDLE and an entity of
  the other side is IDLE or ENGAGED when the IDLE pass starts, a delegate that permits
  engagements leaves it ENGAGED with an entity; and if it has an engaged entity, that
  entity loses the power of its master (and the power of every other entity engaged with
  it) under a delegate that permits damage. The live collection of an engine reached by
  calls from a new engine is allocated and has no duplicates.
\<close>

theorem dead_only_after_knock_back:
  assumes "r \<in> set (unitEntities (beforeEntityState s))"
    and "state (heap (beforeEntityState s) r) = IDLE \<or> state (heap (beforeEntityState s) r) = ENGAGED"
  shows "state (heap (update s) r) \<noteq> DEAD \<and> r \<in> set (unitEntities (update s)) \<and>
         (state (heap (beforeEntityState s) r) = IDLE \<or>
          \<not> healthCrossing (config (beforeEntityState s)) (heap (beforeEntityState s) r) \<longrightarrow>
            state (heap (update s) r) = IDLE \<or> state (heap (update s) r) = ENGAGED) \<and>
         currentHealth (heap (update s) r) = currentHealth (heap (beforeEntityState s) r) \<and>
         (n = run (update s) cs \<and> allocated s \<and> distinct (unitEntities s) \<and>
          r \<in> set (unitEntities n) \<longrightarrow>
            (state (heap n r) = IDLE \<and> walkAllowed n \<and>
             unitMasterCache n (unitId (heap n r)) = Some master \<longrightarrow>
               distance (heap (update n) r) = distance (heap n r) + speed master) \<and>
            (state (heap n r) = IDLE \<and> engageAllowed n \<and> t \<in> set (unitEntities n) \<and>
             isPlayer (heap n t) \<noteq> isPlayer (heap n r) \<and>
             (state (heap (engagedPass (knockBackPass (beforeEntityState n))) t) = IDLE \<or>
              state (heap (engagedPass (knockBackPass (beforeEntityState n))) t) = ENGAGED) \<longrightarrow>
               state (heap (update n) r) = ENGAGED \<and> engagedEntity (heap (update n) r) \<noteq> None) \<and>
            (engagedEntity (heap n r) = Some t \<and> damageAllowed n \<and> t \<in> set (unitEntities n) \<and>
             unitMasterCache n (unitId (heap n r)) = Some master \<longrightarrow>
               currentHealth (heap (update n) t) =
                 currentHealth (heap n t) - power_m master -
                 sum_list (map (attackOn n t) (remove1 r (unitEntities n)))))"
proof -
  have frame: "state (heap (update s) r) \<noteq> DEAD \<and> r \<in> set (unitEntities (update s)) \<and>
         (state (heap (beforeEntityState s) r) = IDLE \<or>
          \<not> healthCrossing (config (beforeEntityState s)) (heap (beforeEntityState s) r) \<longrightarrow>
            state (heap (update s) r) = IDLE \<or> state (heap (update s) r) = ENGAGED)"
    using assms by (rule survives_frame)
  have health: "currentHealth (heap (update s) r) = currentHealth (heap (beforeEntityState s) r)"
    by simp
  have acts: "(state (heap n r) = IDLE \<and> walkAllowed n \<and>
             unitMasterCache n (unitId (heap n r)) = Some master \<longrightarrow>
               distance (heap (update n) r) = distance (heap n r) + speed master) \<and>
            (state (heap n r) = IDLE \<and> engageAllowed n \<and> t \<in> set (unitEntities n) \<and>
             isPlayer (heap n t) \<noteq> isPlayer (heap n r) \<and>
             (state (heap (engagedPass (knockBackPass (beforeEntityState n))) t) = IDLE \<or>
              state (heap (engagedPass (knockBackPass (beforeEntityState n))) t) = ENGAGED) \<longrightarrow>
               state (heap (update n) r) = ENGAGED \<and> engagedEntity (heap (update n) r) \<noteq> None) \<and>
            (engagedEntity (heap n r) = Some t \<and> damageAllowed n \<and> t \<in> set (unitEntities n) \<and>
             unitMasterCache n (unitId (heap n r)) = Some master \<longrightarrow>
               currentHealth (heap (update n) t) =
                 currentHealth (heap n t) - power_m master -
                 sum_list (map (attackOn n t) (remove1 r (unitEntities n))))"
    if n: "n = run (update s) cs" and wf: "allocated s" "distinct (unitEntities s)"
      and live: "r \<in> set (unitEntities n)"
  proof -
    have a: "allocated n" and d: "distinct (unitEntities n)"
      unfolding n using wf by (rule later_wellformed)+
    have walk: "distance (heap (update n) r) = distance (heap n r) + speed master"
      if "state (heap n r) = IDLE" "walkAllowed n"
        "unitMasterCache n (unitId (heap n r)) = Some master"
      using a d live that by (rule acts_walk)
    have engage: "state (heap (update n) r) = ENGAGED \<and> engagedEntity (heap (update n) r) \<noteq> None"
      if "state (heap n r) = IDLE" "engageAllowed n" "t \<in> set (unitEntities n)"
        "isPlayer (heap n t) \<noteq> isPlayer (heap n r)"
        "state (heap (engagedPass (knockBackPass (beforeEntityState n))) t) = IDLE \<or>
         state (heap (engagedPass (knockBackPass (beforeEntityState n))) t) = ENGAGED"
      using a live that(3,1,4,5,2) by (rule acts_engage)
    have damage: "currentHealth (heap (update n) t) =
                 currentHealth (heap n t) - power_m master -
                 sum_list (map (attackOn n t) (remove1 r (unitEntities n)))"
      if "engagedEntity (heap n r) = Some t" "damageAllowed n" "t \<in> set (unitEntities n)"
        "unitMasterCache n (unitId (heap n r)) = Some master"
      using a live that(3,1,2,4) by (rule acts_damage)
    show ?thesis using walk engage damage by blast
  qed
  show ?thesis using frame health acts by blast
qed

lemma wounded_start:
  "unitEntities (beforeEntityState wounded) = [0, Suc 0]"
  "state (heap (beforeEntityState wounded) 0) = IDLE"
  "currentHealth (heap (beforeEntityState wounded) 0) = - 5"
  "allocated wounded"
  "unitEntities wounded = [0, Suc 0]"
  by (simp_all add: engine_defs wounded_def scenario_defs allocated_def)

lemma wounded_1:
  "unitEntities (update wounded) = [0, Suc 0]"
  "state (heap (update wounded) 0) = IDLE"
  "state (heap (update wounded) (Suc 0)) = KNOCK_BACK"
  "distance (heap (update wounded) 0) = 1"
  "isPlayer (heap (update wounded) 0)"
  "\<not> isPlayer (heap (update wounded) (Suc 0))"
  "unitId (heap (update wounded) 0) = 7"
  "state (heap (engagedPass (knockBackPass (beforeEntityState (update wounded)))) (Suc 0)) = IDLE"
  by (simp_all add: frame_defs wounded_def scenario_defs)

lemma wounded_2:
  "unitEntities (update (update wounded)) = [0, Suc 0]"
  "state (heap (update (update wounded)) 0) = ENGAGED"
  "engagedEntity (heap (update (update wounded)) 0) = Some (Suc 0)"
  "engagedEntity (heap (update (update wounded)) (Suc 0)) = Some 0"
  "distance (heap (update (update wounded)) 0) = 2"
  "currentHealth (heap (update (update wounded)) 0) = - 5"
  "currentHealth (heap (update (update wounded)) (Suc 0)) = 100"
  "unitId (heap (update (update wounded)) 0) = 7"
  "unitId (heap (update (update wounded)) (Suc 0)) = 7"
  by (simp_all add: frame_defs wounded_def scenario_defs)

lemma wounded_3:
  "currentHealth (heap (update (update (update wounded))) (Suc 0)) = 90"
  by (simp add: frame_defs wounded_def scenario_defs)

lemma permissive_allows:
  "delegator s = Some permissive \<Longrightarrow> walkAllowed s \<and> engageAllowed s \<and> damageAllowed s"
  by (simp add: walkAllowed_def engageAllowed_def damageAllowed_def permissive_def)

lemma wounded_delegate:
  "delegator wounded = Some permissive"
  "unitMasterCache wounded 7 = Some scenarioMaster"
  by (simp_all add: wounded_def duel_def)

lemma wounded_masters:
  "unitMasterCache (update wounded) (unitId (heap (update wounded) 0)) = Some scenarioMaster"
  "unitMasterCache (update (update wounded)) (unitId (heap (update (update wounded)) 0)) =
     Some scenarioMaster"
  "unitMasterCache (update (update wounded)) (unitId (heap (update (update wounded)) (Suc 0))) =
     Some scenarioMaster"
  "unitMasterCache (update wounded) 7 = Some scenarioMaster"
  "unitMasterCache (update (update wounded)) 7 = Some scenarioMaster"
  using wounded_1(7) wounded_2(8,9) by (simp_all add: wounded_delegate)

lemma scenarioC_start:
  "allocated (scenarioC h)"
  "unitEntities (scenarioC h) = [0, Suc 0]"
  "delegator (scenarioC h) = Some permissive"
  by (simp_all add: scenarioC_def duel_def allocated_def)

lemma scenarioC_1:
  "unitEntities (update (scenarioC 5)) = [0, Suc 0]"
  "state (heap (update (scenarioC 5)) 0) = ENGAGED"
  "engagedEntity (heap (update (scenarioC 5)) 0) = Some (Suc 0)"
  "engagedEntity (heap (update (scenarioC 5)) (Suc 0)) = Some 0"
  "currentHealth (heap (update (scenarioC 5)) 0) = - 5"
  "currentHealth (heap (update (scenarioC 5)) (Suc 0)) = - 5"
  "unitMasterCache (update (scenarioC 5)) (unitId (heap (update (scenarioC 5)) 0)) =
     Some scenarioMaster"
  "unitMasterCache (update (scenarioC 5)) (unitId (heap (update (scenarioC 5)) (Suc 0))) =
     Some scenarioMaster"
  by (simp_all add: frame_defs scenario_defs)

text \<open>
  A unit with health -5 is idle and walks while the opposing unit is knocked back; on the
  next frame it walks again and engages the opposing unit, whose knock back has ended; on
  the frame after that it takes 10 of the 100 health of the opposing unit. Its own health
  is -5 all the time. Of two units engaged with each other whose health falls from 5 to
  -5, neither is DEAD or removed; the first is ENGAGED with the second after the frame
  and takes its health from -5 to -15 on the next.
\<close>

theorem dead_only_after_knock_back_witness:
  "0 \<in> set (unitEntities (beforeEntityState wounded)) \<and>
   state (heap (beforeEntityState wounded) 0) = IDLE \<and>
   currentHealth (heap (beforeEntityState wounded) 0) = - 5 \<and>
   state (heap (update wounded) 0) \<noteq> DEAD \<and>
   0 \<in> set (unitEntities (update wounded)) \<and>
   state (heap (update wounded) 0) = IDLE \<and>
   currentHealth (heap (update wounded) 0) = - 5 \<and>
   distance (heap (update wounded) 0) = 1 \<and>
   distance (heap (update (update wounded)) 0) = 2 \<and>
   state (heap (update (update wounded)) 0) = ENGAGED \<and>
   engagedEntity (heap (update (update wounded)) 0) = Some 1 \<and>
   currentHealth (heap (update (update wounded)) 0) = - 5 \<and>
   currentHealth (heap (update (update wounded)) 1) = 100 \<and>
   currentHealth (heap (update (update (update wounded))) 1) = 90 \<and>
   0 \<in> set (unitEntities (beforeEntityState (scenarioC 5))) \<and>
   state (heap (beforeEntityState (scenarioC 5)) 0) = ENGAGED \<and>
   currentHealth (heap (update (scenarioC 5)) 0) = - 5 \<and>
   state (heap (update (scenarioC 5)) 0) \<noteq> DEAD \<and>
   0 \<in> set (unitEntities (update (scenarioC 5))) \<and>
   state (heap (update (scenarioC 5)) 0) = ENGAGED \<and>
   engagedEntity (heap (update (scenarioC 5)) 0) = Some 1 \<and>
   currentHealth (heap (update (scenarioC 5)) 1) = - 5 \<and>
   currentHealth (heap (update (update (scenarioC 5))) 1) = - 15"
proof -
  let ?n = "update wounded" and ?m = "update (update wounded)"
  have hyp: "0 \<in> set (unitEntities (beforeEntityState wounded))"
    "state (heap (beforeEntityState wounded) 0) = IDLE \<or>
     state (heap (beforeEntityState wounded) 0) = ENGAGED"
    by (simp_all add: wounded_start)
  have n: "run (update wounded) [] = ?n" and m: "run (update wounded) [Update] = ?m"
    by (simp_all add: run_def)
  have wf: "allocated wounded" "distinct (unitEntities wounded)"
    by (simp_all add: wounded_start)
  have allow: "walkAllowed ?n" "engageAllowed ?n" "damageAllowed ?m"
    using permissive_allows [of ?n] permissive_allows [of ?m] by (simp_all add: wounded_delegate)
  have first: "state (heap ?n 0) \<noteq> DEAD \<and> 0 \<in> set (unitEntities ?n) \<and>
      currentHealth (heap ?n 0) = currentHealth (heap (beforeEntityState wounded) 0)"
    using dead_only_after_knock_back [OF hyp] by blast
  have walk: "distance (heap (update ?n) 0) = distance (heap ?n 0) + speed scenarioMaster"
    using dead_only_after_knock_back [OF hyp, where n = ?n and cs = "[]" and master = scenarioMaster]
      n wf allow
    by (simp del: update_heap_fields update_keeps add: wounded_1 wounded_masters)
  have engage: "state (heap (update ?n) 0) = ENGAGED \<and> engagedEntity (heap (update ?n) 0) \<noteq> None"
    using dead_only_after_knock_back [OF hyp, where n = ?n and cs = "[]" and t = "Suc 0"]
      n wf allow
    by (simp del: update_heap_fields update_keeps add: wounded_1)
  have damage: "currentHealth (heap (update ?m) (Suc 0)) =
      currentHealth (heap ?m (Suc 0)) - power_m scenarioMaster -
      sum_list (map (attackOn ?m (Suc 0)) (remove1 0 (unitEntities ?m)))"
    using dead_only_after_knock_back [OF hyp, where n = ?m and cs = "[Update]" and t = "Suc 0"
        and master = scenarioMaster]
      m wf allow
    by (simp del: update_heap_fields update_keeps add: wounded_2 wounded_masters)
  have "attackOn ?m (Suc 0) (Suc 0) = 0"
    by (simp del: update_heap_fields update_keeps add: attackOn_def wounded_2 wounded_masters)
  then have hit: "currentHealth (heap (update ?m) (Suc 0)) = 90"
    using damage
    by (simp del: update_heap_fields update_keeps add: wounded_2 scenarioMaster_def)
  let ?c = "update (scenarioC 5)"
  have hypc: "0 \<in> set (unitEntities (beforeEntityState (scenarioC 5)))"
    "state (heap (beforeEntityState (scenarioC 5)) 0) = IDLE \<or>
     state (heap (beforeEntityState (scenarioC 5)) 0) = ENGAGED"
    by (simp_all add: scenarioC_before fighter_def)
  have c: "run (update (scenarioC 5)) [] = ?c" by (simp add: run_def)
  have wfc: "allocated (scenarioC 5)" "distinct (unitEntities (scenarioC 5))"
    by (simp_all add: scenarioC_start)
  have allowc: "damageAllowed ?c"
    using permissive_allows [of ?c] by (simp add: scenarioC_start)
  have stays: "state (heap ?c 0) \<noteq> DEAD \<and> 0 \<in> set (unitEntities ?c)"
    using dead_only_after_knock_back [OF hypc] by blast
  have blow: "currentHealth (heap (update ?c) (Suc 0)) =
      currentHealth (heap ?c (Suc 0)) - power_m scenarioMaster -
      sum_list (map (attackOn ?c (Suc 0)) (remove1 0 (unitEntities ?c)))"
    using dead_only_after_knock_back [OF hypc, where n = ?c and cs = "[]" and t = "Suc 0"
        and master = scenarioMaster]
      c wfc allowc
    by (simp del: update_heap_fields update_keeps add: scenarioC_1)
  have "attackOn ?c (Suc 0) (Suc 0) = 0"
    by (simp del: update_heap_fields update_keeps add: attackOn_def scenarioC_1)
  then have hitc: "currentHealth (heap (update ?c) (Suc 0)) = - 15"
    using blow
    by (simp del: update_heap_fields update_keeps add: scenarioC_1 scenarioMaster_def)
  show ?thesis
    using first walk engage hit stays hitc
    by (simp del: update_heap_fields update_keeps
          add: wounded_start wounded_1 wounded_2 scenarioMaster_def
            scenarioC_before scenarioC_1 fighter_def)
qed















end
